theory Spec2Isabelle
  imports Main "HOL-Library.Word"
begin

section \<open>The FIFO cache of \<^verbatim>\<open>pkg/chunk/cache/fifo_cache.go\<close>\<close>

text \<open>
  The cache is an array of slots linked into a ring by integer indices, a hash index from
  keys to slots, and the two ring pointers \<^verbatim>\<open>first\<close> and \<^verbatim>\<open>last\<close>.
  The model follows the Go source statement by statement:
  \<^item> the struct \<^verbatim>\<open>cacheEntry\<close> and the struct \<^verbatim>\<open>FifoCache\<close> are records;
  \<^item> the map \<^verbatim>\<open>index\<close> is a partial function from keys to slot numbers;
  \<^item> every slice access is checked, and an access out of range is the run-time panic
    \<open>IndexOutOfRange\<close>; the failed type assertion of \<^verbatim>\<open>Fetch\<close> is the panic
    \<open>TypeAssertionFailed\<close>;
  \<^item> \<^verbatim>\<open>time.Now()\<close> is a parameter of every operation that reads the clock: an instant
    is a number of nanoseconds, a \<^verbatim>\<open>time.Duration\<close> is a signed 64-bit word;
  \<^item> the Prometheus counters and gauges are fields of the cache, so that what an
    operation counts can be stated; the gauge \<^verbatim>\<open>memoryBytes\<close> is kept as an integer;
  \<^item> the lock and the context argument have no effect on a sequential run and are left out.
  Slot numbers are Go \<^verbatim>\<open>int\<close>s that only ever hold a slice index or a slice length;
  they are natural numbers here. The field \<^verbatim>\<open>next\<close> is called \<open>nxt\<close>, the field
  \<^verbatim>\<open>value\<close> is called \<open>val\<close>, and \<^verbatim>\<open>size\<close> and \<^verbatim>\<open>last\<close> carry the suffix
  \<open>_c\<close>, since the original names are taken in Isabelle/HOL.
\<close>

subsection \<open>Data\<close>

type_synonym time = int

type_synonym duration = "64 word"

text \<open>
  A value of type \<^verbatim>\<open>interface{}\<close>: the nil interface, a byte slice, a string, or a value
  of some other dynamic type (an \<^verbatim>\<open>int\<close> stands for those).
\<close>

datatype iface = VNil | VBytes "8 word list" | VString string | VInt int

datatype panic = IndexOutOfRange | TypeAssertionFailed | MakeSliceLenOutOfRange

record FifoCacheConfig =
  Size :: int
  Validity :: duration

record cacheEntry =
  updated :: time
  key :: string
  val :: iface
  prev :: nat
  nxt :: nat

record FifoCache =
  size_c :: nat
  validity :: duration
  entries :: "cacheEntry list"
  index :: "string \<rightharpoonup> nat"
  first :: nat
  last_c :: nat
  entriesAdded :: nat
  entriesAddedNew :: nat
  entriesEvicted :: nat
  entriesCurrent :: int
  totalGets :: nat
  totalMisses :: nat
  staleGets :: nat
  memoryBytes :: int

subsection \<open>Helpers of the run-time system\<close>

text \<open>
  \<^verbatim>\<open>time.Since(u)\<close> is \<^verbatim>\<open>time.Now().Sub(u)\<close>: the difference of the two instants,
  saturated at the least and the greatest \<^verbatim>\<open>Duration\<close>.
\<close>

definition since :: "time \<Rightarrow> time \<Rightarrow> int" where
  "since now u = max (- (2 ^ 63)) (min (2 ^ 63 - 1) (now - u))"

text \<open>
  \<^verbatim>\<open>sizeOf\<close>: the length of a string or of a byte slice; for every other dynamic type
  modelled here the \<^verbatim>\<open>default\<close> case applies, which is the size of an interface value
  (two machine words, 16 bytes on a 64-bit machine).
\<close>

fun sizeOf :: "iface \<Rightarrow> int" where
  "sizeOf (VString s) = int (length s)"
| "sizeOf (VBytes b) = int (length b)"
| "sizeOf v = 16"

text \<open>Assignments to one field of a slot, \<^verbatim>\<open>c.entries[i].next = n\<close> and \<^verbatim>\<open>c.entries[i].prev = p\<close>.\<close>

definition set_nxt :: "cacheEntry list \<Rightarrow> nat \<Rightarrow> nat \<Rightarrow> cacheEntry list" where
  "set_nxt es i n = es[i := (es ! i)\<lparr>nxt := n\<rparr>]"

definition set_prev :: "cacheEntry list \<Rightarrow> nat \<Rightarrow> nat \<Rightarrow> cacheEntry list" where
  "set_prev es i p = es[i := (es ! i)\<lparr>prev := p\<rparr>]"

subsection \<open>Construction\<close>

text \<open>
  \<^verbatim>\<open>NewFifoCache\<close>: \<^verbatim>\<open>make([]cacheEntry, 0, cfg.Size)\<close> panics when the size is negative.
  The Go zero value of \<^verbatim>\<open>first\<close> and \<^verbatim>\<open>last\<close> is 0. The initial memory gauge is the
  size of one \<^verbatim>\<open>cacheEntry\<close> (72 bytes on a 64-bit machine) times the capacity.
\<close>

definition NewFifoCache :: "FifoCacheConfig \<Rightarrow> panic + FifoCache" where
  "NewFifoCache cfg =
     (if Size cfg < 0 then Inl MakeSliceLenOutOfRange
      else Inr \<lparr> size_c = nat (Size cfg), validity = Validity cfg, entries = [],
                 index = Map.empty, first = 0, last_c = 0,
                 entriesAdded = 0, entriesAddedNew = 0, entriesEvicted = 0,
                 entriesCurrent = 0, totalGets = 0, totalMisses = 0, staleGets = 0,
                 memoryBytes = 72 * Size cfg \<rparr>)"

subsection \<open>Writing one key\<close>

text \<open>
  The branch of \<^verbatim>\<open>put\<close> for a key the index already has, at slot \<open>i\<close>. The local
  variable \<^verbatim>\<open>entry\<close> is a copy of the slot: it is changed on the side and written back by
  the last assignment, after the four assignments to the neighbours' links.
\<close>

definition put_update :: "time \<Rightarrow> nat \<Rightarrow> iface \<Rightarrow> FifoCache \<Rightarrow> panic + FifoCache" where
  "put_update now i v c =
     (if \<not> i < length (entries c) then Inl IndexOutOfRange
      else
        let entry0 = entries c ! i;
            deltaSize = sizeOf v - sizeOf (val entry0);
            entry1 = entry0\<lparr>updated := now, val := v\<rparr>
        in
        if \<not> prev entry1 < length (entries c) then Inl IndexOutOfRange
        else
          let es1 = set_nxt (entries c) (prev entry1) (nxt entry1) in
          if \<not> nxt entry1 < length es1 then Inl IndexOutOfRange
          else
            let es2 = set_prev es1 (nxt entry1) (prev entry1);
                last1 = (if last_c c = i then prev entry1 else last_c c);
                entry2 = entry1\<lparr>nxt := first c, prev := last1\<rparr>
            in
            if \<not> nxt entry2 < length es2 then Inl IndexOutOfRange
            else
              let es3 = set_prev es2 (nxt entry2) i in
              if \<not> prev entry2 < length es3 then Inl IndexOutOfRange
              else
                let es4 = set_nxt es3 (prev entry2) i in
                Inr (c\<lparr> last_c := last1, first := i, entries := es4[i := entry2],
                        memoryBytes := memoryBytes c + deltaSize \<rparr>))"

text \<open>
  The branch for a new key when the array is full: the slot \<^verbatim>\<open>last\<close> is overwritten.
  Neither the slot's links nor its neighbours' links are touched.
\<close>

definition put_evict :: "time \<Rightarrow> string \<Rightarrow> iface \<Rightarrow> FifoCache \<Rightarrow> panic + FifoCache" where
  "put_evict now k v c =
     (let i = last_c c in
      if \<not> i < length (entries c) then Inl IndexOutOfRange
      else
        let entry = entries c ! i;
            deltaSize = sizeOf (VString k) + sizeOf v - sizeOf (VString (key entry))
                        - sizeOf (val entry)
        in
        Inr (c\<lparr> entriesEvicted := entriesEvicted c + 1,
                last_c := prev entry, first := i,
                index := ((index c)(key entry := None))(k \<mapsto> i),
                entries := (entries c)[i := entry\<lparr>updated := now, val := v, key := k\<rparr>],
                memoryBytes := memoryBytes c + deltaSize \<rparr>))"

text \<open>The branch for a new key when there is room: a slot is appended.\<close>

definition put_append :: "time \<Rightarrow> string \<Rightarrow> iface \<Rightarrow> FifoCache \<Rightarrow> panic + FifoCache" where
  "put_append now k v c =
     (let i = length (entries c);
          es1 = entries c @ [\<lparr> updated = now, key = k, val = v,
                                prev = last_c c, nxt = first c \<rparr>]
      in
      if \<not> first c < length es1 then Inl IndexOutOfRange
      else
        let es2 = set_prev es1 (first c) i in
        if \<not> last_c c < length es2 then Inl IndexOutOfRange
        else
          let es3 = set_nxt es2 (last_c c) i in
          Inr (c\<lparr> entries := es3, first := i, index := (index c)(k \<mapsto> i),
                  memoryBytes := memoryBytes c + (sizeOf (VString k) + sizeOf v),
                  entriesCurrent := entriesCurrent c + 1 \<rparr>))"

definition put :: "time \<Rightarrow> string \<Rightarrow> iface \<Rightarrow> FifoCache \<Rightarrow> panic + FifoCache" where
  "put now k v c =
     (case index c k of
        Some i \<Rightarrow> put_update now i v c
      | None \<Rightarrow>
          let c1 = c\<lparr>entriesAddedNew := entriesAddedNew c + 1\<rparr> in
          if length (entries c1) \<ge> size_c c1 then put_evict now k v c1
          else put_append now k v c1)"

subsection \<open>The exported operations\<close>

text \<open>
  The loop \<^verbatim>\<open>for i := range keys { c.put(ctx, keys[i], values[i]) }\<close>. The counter \<open>i\<close>
  runs with the keys; \<open>tm i\<close> is the clock at the \<open>i\<close>-th round. \<^verbatim>\<open>values[i]\<close> panics
  when \<open>values\<close> is too short.
\<close>

fun put_loop :: "(nat \<Rightarrow> time) \<Rightarrow> nat \<Rightarrow> string list \<Rightarrow> iface list \<Rightarrow> FifoCache
                  \<Rightarrow> panic + FifoCache" where
  "put_loop tm i [] vs c = Inr c"
| "put_loop tm i (k # ks) vs c =
     (if \<not> i < length vs then Inl IndexOutOfRange
      else case put (tm i) k (vs ! i) c of
             Inl e \<Rightarrow> Inl e
           | Inr c' \<Rightarrow> put_loop tm (Suc i) ks vs c')"

definition Put :: "(nat \<Rightarrow> time) \<Rightarrow> string list \<Rightarrow> iface list \<Rightarrow> FifoCache \<Rightarrow> panic + FifoCache" where
  "Put tm ks vs c =
     (let c1 = c\<lparr>entriesAdded := entriesAdded c + 1\<rparr> in
      if size_c c1 = 0 then Inr c1 else put_loop tm 0 ks vs c1)"

text \<open>\<^verbatim>\<open>Get\<close> returns the pair of the value and the found flag, and the cache with its counters.\<close>

definition Get :: "time \<Rightarrow> string \<Rightarrow> FifoCache \<Rightarrow> panic + ((iface \<times> bool) \<times> FifoCache)" where
  "Get now k c =
     (let c1 = c\<lparr>totalGets := totalGets c + 1\<rparr> in
      if size_c c1 = 0 then Inr ((VNil, False), c1)
      else
        case index c1 k of
          Some i \<Rightarrow>
            if \<not> i < length (entries c1) then Inl IndexOutOfRange
            else
              let u = updated (entries c1 ! i) in
              if validity c1 = 0 \<or> since now u < sint (validity c1)
              then Inr ((val (entries c1 ! i), True), c1)
              else Inr ((VNil, False),
                        c1\<lparr> totalMisses := totalMisses c1 + 1, staleGets := staleGets c1 + 1 \<rparr>)
        | None \<Rightarrow> Inr ((VNil, False), c1\<lparr>totalMisses := totalMisses c1 + 1\<rparr>))"

text \<open>
  \<^verbatim>\<open>Fetch\<close>: one \<^verbatim>\<open>Get\<close> per key, in order; a hit is appended to \<^verbatim>\<open>found\<close> and its
  value, asserted to be a byte slice, to \<^verbatim>\<open>bufs\<close>; a miss is appended to \<^verbatim>\<open>missing\<close>.
  The result is the triple \<^verbatim>\<open>(found, bufs, missing)\<close>.
\<close>

fun fetch_loop :: "(nat \<Rightarrow> time) \<Rightarrow> nat \<Rightarrow> string list
                    \<Rightarrow> string list \<times> 8 word list list \<times> string list \<Rightarrow> FifoCache
                    \<Rightarrow> panic + ((string list \<times> 8 word list list \<times> string list) \<times> FifoCache)" where
  "fetch_loop tm i [] acc c = Inr (acc, c)"
| "fetch_loop tm i (k # ks) (found, bufs, missing) c =
     (case Get (tm i) k c of
        Inl e \<Rightarrow> Inl e
      | Inr ((v, ok), c') \<Rightarrow>
          if \<not> ok then fetch_loop tm (Suc i) ks (found, bufs, missing @ [k]) c'
          else (case v of
                  VBytes b \<Rightarrow> fetch_loop tm (Suc i) ks (found @ [k], bufs @ [b], missing) c'
                | _ \<Rightarrow> Inl TypeAssertionFailed))"

definition Fetch :: "(nat \<Rightarrow> time) \<Rightarrow> string list \<Rightarrow> FifoCache
                      \<Rightarrow> panic + ((string list \<times> 8 word list list \<times> string list) \<times> FifoCache)" where
  "Fetch tm ks c = fetch_loop tm 0 ks ([], [], []) c"

text \<open>\<^verbatim>\<open>Store\<close> wraps every buffer as an interface value and calls \<^verbatim>\<open>Put\<close>.\<close>

definition Store :: "(nat \<Rightarrow> time) \<Rightarrow> string list \<Rightarrow> 8 word list list \<Rightarrow> FifoCache
                      \<Rightarrow> panic + FifoCache" where
  "Store tm ks bufs c = Put tm ks (map VBytes bufs) c"

subsection \<open>The index bounds that every operation keeps\<close>

text \<open>
  Every link of every slot, both ring pointers and every slot number in the index stay
  below the length of the array, and the array never outgrows the capacity. In the empty
  cache both ring pointers are 0, the Go zero value.
\<close>

definition links_bounded :: "cacheEntry list \<Rightarrow> bool" where
  "links_bounded es = (\<forall>j<length es. prev (es ! j) < length es \<and> nxt (es ! j) < length es)"

definition inv_bounds :: "FifoCache \<Rightarrow> bool" where
  "inv_bounds c =
     (length (entries c) \<le> size_c c \<and> first c \<le> length (entries c) - 1 \<and>
      last_c c \<le> length (entries c) - 1 \<and> links_bounded (entries c) \<and>
      (\<forall>k i. index c k = Some i \<longrightarrow> i < length (entries c)))"


subsection \<open>Runs and sample states\<close>

text \<open>A run of \<^verbatim>\<open>Put\<close> calls, one batch after the other; a panic ends the run.\<close>

fun Puts :: "((nat \<Rightarrow> time) \<times> string list \<times> iface list) list \<Rightarrow> FifoCache \<Rightarrow> panic + FifoCache" where
  "Puts [] c = Inr c"
| "Puts ((tm, ks, vs) # bs) c =
     (case Put tm ks vs c of Inl e \<Rightarrow> Inl e | Inr c' \<Rightarrow> Puts bs c')"

text \<open>A clock that advances by one nanosecond per round, and sample caches.\<close>

definition tick :: "nat \<Rightarrow> time" where
  "tick i = int i"

definition zero_cache :: FifoCache where
  "zero_cache = projr (NewFifoCache \<lparr>Size = 0, Validity = 0\<rparr>)"

definition stale_cache :: FifoCache where
  "stale_cache = \<lparr> size_c = 1, validity = 5,
      entries = [\<lparr> updated = 0, key = ''a'', val = VInt 1, prev = 0, nxt = 0 \<rparr>],
      index = [''a'' \<mapsto> 0], first = 0, last_c = 0,
      entriesAdded = 1, entriesAddedNew = 1, entriesEvicted = 0,
      entriesCurrent = 1, totalGets = 0, totalMisses = 0, staleGets = 0,
      memoryBytes = 89 \<rparr>"

definition one_cache :: FifoCache where
  "one_cache = projr (NewFifoCache \<lparr>Size = 1, Validity = 5\<rparr>)"

subsection \<open>What a batch of reads sees\<close>

text \<open>
  The outcome of one \<^verbatim>\<open>Get\<close> on a cache, as two functions of the cache, the time and the
  key: the found flag and the value. \<open>reads tm i ks\<close> pairs every key with the time of its
  round. \<open>same_store\<close> relates two caches that differ in counters only.
\<close>

definition hit :: "FifoCache \<Rightarrow> time \<Rightarrow> string \<Rightarrow> bool" where
  "hit c now k = (case Get now k c of Inl e \<Rightarrow> False | Inr r \<Rightarrow> snd (fst r))"

definition got :: "FifoCache \<Rightarrow> time \<Rightarrow> string \<Rightarrow> iface" where
  "got c now k = (case Get now k c of Inl e \<Rightarrow> VNil | Inr r \<Rightarrow> fst (fst r))"

fun is_bytes :: "iface \<Rightarrow> bool" where
  "is_bytes (VBytes b) = True"
| "is_bytes v = False"

fun the_bytes :: "iface \<Rightarrow> 8 word list" where
  "the_bytes (VBytes b) = b"
| "the_bytes v = []"

fun reads :: "(nat \<Rightarrow> time) \<Rightarrow> nat \<Rightarrow> string list \<Rightarrow> (string \<times> time) list" where
  "reads tm i [] = []"
| "reads tm i (k # ks) = (k, tm i) # reads tm (Suc i) ks"

definition same_store :: "FifoCache \<Rightarrow> FifoCache \<Rightarrow> bool" where
  "same_store c c' = (entries c' = entries c \<and> index c' = index c \<and> first c' = first c \<and>
     last_c c' = last_c c \<and> size_c c' = size_c c \<and> validity c' = validity c)"

definition bytes_cache :: FifoCache where
  "bytes_cache = projr (Put tick [''a''] [VBytes [1, 2]] one_cache)"

definition str_cache :: FifoCache where
  "str_cache = projr (Put tick [''a''] [VString ''x''] one_cache)"

subsection \<open>The ring\<close>

text \<open>
  \<open>walk es i m\<close> follows the \<^verbatim>\<open>next\<close> links from slot \<open>i\<close> for \<open>m\<close> steps. The slots of
  a cache form one ring when every link is in range, \<^verbatim>\<open>prev\<close> and \<^verbatim>\<open>next\<close> are inverse to
  each other at every slot, and the walk from \<^verbatim>\<open>first\<close> over as many steps as there are
  slots meets every slot; both ring pointers are then slots of the ring.
\<close>

fun walk :: "cacheEntry list \<Rightarrow> nat \<Rightarrow> nat \<Rightarrow> nat list" where
  "walk es i 0 = []"
| "walk es i (Suc m) = i # walk es (nxt (es ! i)) m"

definition ring_ok :: "FifoCache \<Rightarrow> bool" where
  "ring_ok c =
     (let es = entries c; n = length es in
      n = 0 \<or>
      (first c < n \<and> last_c c < n \<and>
       list_all (\<lambda>i. prev (es ! i) < n \<and> nxt (es ! i) < n) [0..<n] \<and>
       list_all (\<lambda>i. prev (es ! nxt (es ! i)) = i \<and> nxt (es ! prev (es ! i)) = i) [0..<n] \<and>
       set (walk es (first c) n) = set [0..<n]))"

definition two_cache :: FifoCache where
  "two_cache = projr (NewFifoCache \<lparr>Size = 2, Validity = 0\<rparr>)"

definition ab_cache :: FifoCache where
  "ab_cache = projr (Put tick [''a'', ''b''] [VInt 1, VInt 2] two_cache)"

definition abb_cache :: FifoCache where
  "abb_cache = projr (put 2 ''b'' (VInt 3) ab_cache)"

definition three_cache :: FifoCache where
  "three_cache = projr (NewFifoCache \<lparr>Size = 3, Validity = 0\<rparr>)"

definition abc_cache :: FifoCache where
  "abc_cache = projr (Put tick [''a'', ''b'', ''c''] [VInt 1, VInt 2, VInt 3] three_cache)"

definition abcc_cache :: FifoCache where
  "abcc_cache = projr (put 3 ''c'' (VInt 4) abc_cache)"

definition refreshed_cache :: FifoCache where
  "refreshed_cache = projr (put 4 ''a'' (VInt 5) abcc_cache)"

definition after_d_cache :: FifoCache where
  "after_d_cache = projr (put 5 ''d'' (VInt 6) refreshed_cache)"

definition after_e_cache :: FifoCache where
  "after_e_cache = projr (put 6 ''e'' (VInt 7) after_d_cache)"

subsection \<open>A cache filled by first-time writes\<close>

text \<open>
  \<open>filled n tm ks vs c\<close>: the cache \<open>c\<close> holds exactly the first \<open>n\<close> keys of \<open>ks\<close>, the
  \<open>j\<close>-th of them in slot \<open>j\<close> with the \<open>j\<close>-th value and the time of the \<open>j\<close>-th round, and
  slot 0, the oldest, is the next victim.
\<close>

definition filled :: "nat \<Rightarrow> (nat \<Rightarrow> time) \<Rightarrow> string list \<Rightarrow> iface list \<Rightarrow> FifoCache \<Rightarrow> bool" where
  "filled n tm ks vs c =
     (length (entries c) = n \<and> last_c c = 0 \<and> inv_bounds c \<and>
      (\<forall>j<n. key (entries c ! j) = ks ! j \<and> val (entries c ! j) = vs ! j \<and>
              updated (entries c ! j) = tm j \<and> index c (ks ! j) = Some j) \<and>
      (\<forall>k. k \<notin> set (take n ks) \<longrightarrow> index c k = None))"

subsection \<open>Reachable states\<close>

text \<open>
  The states a program can reach: a cache as constructed, and the cache after a \<^verbatim>\<open>Put\<close> or
  a \<^verbatim>\<open>Get\<close> that returned. \<^verbatim>\<open>Store\<close> is a \<^verbatim>\<open>Put\<close>, and \<^verbatim>\<open>Fetch\<close> a run of \<^verbatim>\<open>Get\<close> calls.
\<close>

inductive reachable :: "FifoCache \<Rightarrow> bool" where
  reach_new: "NewFifoCache cfg = Inr c \<Longrightarrow> reachable c"
| reach_put: "reachable c \<Longrightarrow> Put tm ks vs c = Inr c' \<Longrightarrow> reachable c'"
| reach_get: "reachable c \<Longrightarrow> Get now k c = Inr (r, c') \<Longrightarrow> reachable c'"

section \<open>Properties\<close>

subsection \<open>Index bounds are kept, and no slice access fails\<close>

lemma length_set_nxt [simp]: "length (set_nxt es i n) = length es"
  by (simp add: set_nxt_def)

lemma length_set_prev [simp]: "length (set_prev es i p) = length es"
  by (simp add: set_prev_def)

lemma links_bounded_update:
  assumes "links_bounded es" and "prev e < length es" and "nxt e < length es"
  shows "links_bounded (es[i := e])"
  unfolding links_bounded_def
proof (intro allI impI)
  fix j
  assume "j < length (es[i := e])"
  then have j: "j < length es" by simp
  show "prev (es[i := e] ! j) < length (es[i := e]) \<and> nxt (es[i := e] ! j) < length (es[i := e])"
  proof (cases "i = j")
    case True
    with j assms show ?thesis by simp
  next
    case False
    with j assms(1) show ?thesis by (simp add: links_bounded_def)
  qed
qed

lemma links_bounded_set_nxt:
  assumes "links_bounded es" and "n < length es"
  shows "links_bounded (set_nxt es i n)"
proof (cases "i < length es")
  case True
  with assms show ?thesis
    unfolding set_nxt_def by (intro links_bounded_update) (simp_all add: links_bounded_def)
next
  case False
  with assms show ?thesis by (simp add: set_nxt_def list_update_beyond not_less)
qed

lemma links_bounded_set_prev:
  assumes "links_bounded es" and "p < length es"
  shows "links_bounded (set_prev es i p)"
proof (cases "i < length es")
  case True
  with assms show ?thesis
    unfolding set_prev_def by (intro links_bounded_update) (simp_all add: links_bounded_def)
next
  case False
  with assms show ?thesis by (simp add: set_prev_def list_update_beyond not_less)
qed

lemma inv_bounds_New:
  "NewFifoCache cfg = Inr c \<Longrightarrow> inv_bounds c"
  by (auto simp: NewFifoCache_def inv_bounds_def links_bounded_def split: if_splits)

lemma put_update_ok:
  assumes inv: "inv_bounds c" and ix: "index c k = Some i"
  shows "\<exists>c'. put_update now i v c = Inr c' \<and> inv_bounds c' \<and> size_c c' = size_c c \<and>
           validity c' = validity c \<and> index c' = index c \<and>
           length (entries c') = length (entries c) \<and>
           val (entries c' ! i) = v \<and> updated (entries c' ! i) = now"
proof -
  let ?es = "entries c"
  let ?n = "length ?es"
  from inv ix have i: "i < ?n" by (simp add: inv_bounds_def)
  from inv have lb: "links_bounded ?es" by (simp add: inv_bounds_def)
  define p where "p = prev (?es ! i)"
  define x where "x = nxt (?es ! i)"
  from lb i have p: "p < ?n" and x: "x < ?n" by (simp_all add: links_bounded_def p_def x_def)
  from inv i have f: "first c < ?n" and l: "last_c c < ?n" by (auto simp: inv_bounds_def)
  define l1 where "l1 = (if last_c c = i then p else last_c c)"
  have l1: "l1 < ?n" using p l by (simp add: l1_def)
  define e2 where "e2 = (?es ! i)\<lparr>updated := now, val := v, nxt := first c, prev := l1\<rparr>"
  define es4 where "es4 = set_nxt (set_prev (set_prev (set_nxt ?es p x) x p) (first c) i) l1 i"
  define c' where "c' = c\<lparr> last_c := l1, first := i, entries := es4[i := e2],
        memoryBytes := memoryBytes c + (sizeOf v - sizeOf (val (?es ! i))) \<rparr>"
  have eq: "put_update now i v c = Inr c'"
    unfolding put_update_def Let_def
    using i p x f l
    by (simp add: p_def[symmetric] x_def[symmetric] l1_def c'_def es4_def e2_def)
  have len4: "length es4 = ?n" by (simp add: es4_def)
  have lb4: "links_bounded es4"
    unfolding es4_def using lb p x i
    by (intro links_bounded_set_nxt links_bounded_set_prev) simp_all
  have lb5: "links_bounded (es4[i := e2])"
    using lb4 f l1 by (intro links_bounded_update) (simp_all add: len4 e2_def)
  have ib: "inv_bounds c'"
    unfolding inv_bounds_def
  proof (intro conjI)
    show "length (entries c') \<le> size_c c'" using inv by (simp add: inv_bounds_def c'_def len4)
    show "first c' \<le> length (entries c') - 1" using i by (simp add: c'_def len4)
    show "last_c c' \<le> length (entries c') - 1" using l1 by (simp add: c'_def len4)
    show "links_bounded (entries c')" using lb5 by (simp add: c'_def)
    show "\<forall>k i. index c' k = Some i \<longrightarrow> i < length (entries c')"
      using inv by (simp add: inv_bounds_def c'_def len4)
  qed
  have vu: "val (entries c' ! i) = v" "updated (entries c' ! i) = now"
    using i by (simp_all add: c'_def len4 e2_def)
  have fr: "size_c c' = size_c c" "validity c' = validity c" "index c' = index c"
    "length (entries c') = length (entries c)"
    by (simp_all add: c'_def len4)
  show ?thesis by (rule exI[of _ c']) (simp add: eq ib vu fr)
qed

lemma inv_bounds_counters [simp]:
  "inv_bounds (c\<lparr>entriesAddedNew := a\<rparr>) = inv_bounds c"
  "inv_bounds (c\<lparr>entriesAdded := b\<rparr>) = inv_bounds c"
  "inv_bounds (c\<lparr>totalGets := g\<rparr>) = inv_bounds c"
  "inv_bounds (c\<lparr>totalMisses := m\<rparr>) = inv_bounds c"
  "inv_bounds (c\<lparr>staleGets := s\<rparr>) = inv_bounds c"
  by (simp_all add: inv_bounds_def)

lemma inv_bounds_ptrs:
  assumes "inv_bounds c" and "0 < length (entries c)"
  shows "first c < length (entries c)" and "last_c c < length (entries c)"
  using assms unfolding inv_bounds_def by arith+

lemma put_evict_eq:
  assumes "last_c c < length (entries c)"
  shows "put_evict now k v c =
     Inr (c\<lparr> entriesEvicted := entriesEvicted c + 1,
            last_c := prev (entries c ! last_c c), first := last_c c,
            index := ((index c)(key (entries c ! last_c c) := None))(k \<mapsto> last_c c),
            entries := (entries c)[last_c c :=
                         (entries c ! last_c c)\<lparr>updated := now, val := v, key := k\<rparr>],
            memoryBytes := memoryBytes c +
               (sizeOf (VString k) + sizeOf v - sizeOf (VString (key (entries c ! last_c c)))
                - sizeOf (val (entries c ! last_c c))) \<rparr>)"
  using assms by (simp add: put_evict_def Let_def)

lemma put_evict_ok:
  assumes inv: "inv_bounds c" and full: "size_c c \<le> length (entries c)" and pos: "0 < size_c c"
  shows "\<exists>c'. put_evict now k v c = Inr c' \<and> inv_bounds c' \<and> size_c c' = size_c c \<and>
           validity c' = validity c \<and> length (entries c') = length (entries c) \<and>
           index c' k = Some (last_c c) \<and> last_c c < length (entries c) \<and>
           val (entries c' ! last_c c) = v \<and> updated (entries c' ! last_c c) = now \<and>
           key (entries c' ! last_c c) = k"
proof -
  let ?n = "length (entries c)"
  from full pos have n: "0 < ?n" by arith
  with inv have l: "last_c c < ?n" by (rule inv_bounds_ptrs(2))
  from inv have lb: "links_bounded (entries c)" by (simp add: inv_bounds_def)
  define e where "e = (entries c ! last_c c)\<lparr>updated := now, val := v, key := k\<rparr>"
  from lb l have pe: "prev e < ?n" and ne: "nxt e < ?n"
    by (simp_all add: links_bounded_def e_def)
  have lb': "links_bounded ((entries c)[last_c c := e])"
    using lb pe ne by (rule links_bounded_update)
  note eq = put_evict_eq [OF l, of now k v, folded e_def]
  obtain c' where c': "put_evict now k v c = Inr c'" using eq by blast
  have flds: "size_c c' = size_c c" "validity c' = validity c"
    "entries c' = (entries c)[last_c c := e]"
    "index c' = ((index c)(key (entries c ! last_c c) := None))(k \<mapsto> last_c c)"
    "first c' = last_c c" "last_c c' = prev (entries c ! last_c c)"
    using c' unfolding eq by auto
  have ib: "inv_bounds c'"
    unfolding inv_bounds_def
  proof (intro conjI)
    show "length (entries c') \<le> size_c c'" using inv by (simp add: flds inv_bounds_def)
    show "first c' \<le> length (entries c') - 1" using l by (simp add: flds)
    show "last_c c' \<le> length (entries c') - 1" using pe by (simp add: flds e_def)
    show "links_bounded (entries c')" using lb' by (simp add: flds)
    show "\<forall>k i. index c' k = Some i \<longrightarrow> i < length (entries c')"
      using inv l by (simp add: flds inv_bounds_def)
  qed
  have vals: "val (entries c' ! last_c c) = v" "updated (entries c' ! last_c c) = now"
    "key (entries c' ! last_c c) = k"
    using l by (simp_all add: flds e_def)
  have len: "length (entries c') = length (entries c)" and idx: "index c' k = Some (last_c c)"
    by (simp_all add: flds)
  show ?thesis
    by (rule exI[of _ c']) (simp add: c' ib vals l len idx flds(1,2))
qed


lemma links_bounded_append:
  assumes "links_bounded es" and "prev e \<le> length es" and "nxt e \<le> length es"
  shows "links_bounded (es @ [e])"
  unfolding links_bounded_def
proof (intro allI impI)
  fix j
  assume j: "j < length (es @ [e])"
  show "prev ((es @ [e]) ! j) < length (es @ [e]) \<and> nxt ((es @ [e]) ! j) < length (es @ [e])"
  proof (cases "j < length es")
    case True
    with assms(1) have "prev (es ! j) < length es" "nxt (es ! j) < length es"
      by (simp_all add: links_bounded_def)
    with True show ?thesis by (simp add: nth_append)
  next
    case False
    with j have "j = length es" by simp
    with assms(2,3) show ?thesis by simp
  qed
qed

lemma set_nxt_payload:
  assumes "j < length es"
  shows "val (set_nxt es i x ! j) = val (es ! j)" and "key (set_nxt es i x ! j) = key (es ! j)"
    and "updated (set_nxt es i x ! j) = updated (es ! j)"
  using assms unfolding set_nxt_def by (cases "i = j"; simp)+

lemma set_prev_payload:
  assumes "j < length es"
  shows "val (set_prev es i x ! j) = val (es ! j)" and "key (set_prev es i x ! j) = key (es ! j)"
    and "updated (set_prev es i x ! j) = updated (es ! j)"
  using assms unfolding set_prev_def by (cases "i = j"; simp)+

lemma put_append_ok:
  assumes inv: "inv_bounds c" and room: "length (entries c) < size_c c"
  shows "\<exists>c'. put_append now k v c = Inr c' \<and> inv_bounds c' \<and> size_c c' = size_c c \<and>
           validity c' = validity c \<and> length (entries c') = Suc (length (entries c)) \<and>
           index c' k = Some (length (entries c)) \<and>
           val (entries c' ! length (entries c)) = v \<and>
           updated (entries c' ! length (entries c)) = now \<and>
           key (entries c' ! length (entries c)) = k"
proof -
  let ?n = "length (entries c)"
  define e where "e = \<lparr> updated = now, key = k, val = v, prev = last_c c, nxt = first c \<rparr>"
  define es1 where "es1 = entries c @ [e]"
  define es3 where "es3 = set_nxt (set_prev es1 (first c) ?n) (last_c c) ?n"
  from inv have f: "first c \<le> ?n" and l: "last_c c \<le> ?n"
    unfolding inv_bounds_def by arith+
  have len1: "length es1 = Suc ?n" by (simp add: es1_def)
  have len3: "length es3 = Suc ?n" by (simp add: es3_def len1)
  define c' where "c' = c\<lparr> entries := es3, first := ?n, index := (index c)(k \<mapsto> ?n),
      memoryBytes := memoryBytes c + (sizeOf (VString k) + sizeOf v),
      entriesCurrent := entriesCurrent c + 1 \<rparr>"
  have eq: "put_append now k v c = Inr c'"
    unfolding put_append_def Let_def using f l
    by (simp add: e_def[symmetric] es1_def[symmetric] len1 es3_def[symmetric] c'_def)
  from inv have lb: "links_bounded (entries c)" by (simp add: inv_bounds_def)
  have lb1: "links_bounded es1"
    unfolding es1_def using lb l f by (intro links_bounded_append) (simp_all add: e_def)
  have lb3: "links_bounded es3"
    unfolding es3_def using lb1
    by (intro links_bounded_set_nxt links_bounded_set_prev) (simp_all add: len1)
  have ib: "inv_bounds c'"
    unfolding inv_bounds_def
  proof (intro conjI)
    show "length (entries c') \<le> size_c c'" using room by (simp add: c'_def len3)
    show "first c' \<le> length (entries c') - 1" by (simp add: c'_def len3)
    show "last_c c' \<le> length (entries c') - 1" using l by (simp add: c'_def len3)
    show "links_bounded (entries c')" using lb3 by (simp add: c'_def)
    show "\<forall>k i. index c' k = Some i \<longrightarrow> i < length (entries c')"
      using inv by (auto simp: c'_def len3 inv_bounds_def less_Suc_eq)
  qed
  have n1: "?n < length es1" by (simp add: len1)
  have n2: "?n < length (set_prev es1 (first c) ?n)" by (simp add: len1)
  have pay: "val (es3 ! ?n) = val (es1 ! ?n)" "updated (es3 ! ?n) = updated (es1 ! ?n)"
    "key (es3 ! ?n) = key (es1 ! ?n)"
    unfolding es3_def by (simp_all only: set_nxt_payload [OF n2] set_prev_payload [OF n1])
  have e1: "es1 ! ?n = e" by (simp add: es1_def)
  have vals: "val (es3 ! ?n) = v" "updated (es3 ! ?n) = now" "key (es3 ! ?n) = k"
    by (simp_all add: pay e1 e_def)
  have flds: "size_c c' = size_c c" "validity c' = validity c" "entries c' = es3"
    "index c' k = Some ?n"
    by (simp_all add: c'_def)
  show ?thesis
    by (rule exI[of _ c']) (simp add: eq ib flds len3 vals)
qed

lemma put_ok:
  assumes inv: "inv_bounds c" and pos: "0 < size_c c"
  shows "\<exists>c' i. put now k v c = Inr c' \<and> inv_bounds c' \<and> size_c c' = size_c c \<and>
           validity c' = validity c \<and> length (entries c) \<le> length (entries c') \<and>
           index c' k = Some i \<and> i < length (entries c') \<and>
           val (entries c' ! i) = v \<and> updated (entries c' ! i) = now"
proof (cases "index c k")
  case (Some i)
  from put_update_ok [OF inv Some, of now v] obtain c' where c':
    "put_update now i v c = Inr c'" "inv_bounds c'" "size_c c' = size_c c"
    "validity c' = validity c" "index c' = index c" "length (entries c') = length (entries c)"
    "val (entries c' ! i) = v" "updated (entries c' ! i) = now"
    by blast
  from inv Some have i: "i < length (entries c)" by (simp add: inv_bounds_def)
  have p: "put now k v c = Inr c'" using Some c'(1) by (simp add: put_def)
  show ?thesis
    by (rule exI[of _ c'], rule exI[of _ i]) (simp add: p c' Some i)
next
  case None
  let ?c1 = "c\<lparr>entriesAddedNew := entriesAddedNew c + 1\<rparr>"
  have inv1: "inv_bounds ?c1" using inv by simp
  show ?thesis
  proof (cases "size_c c \<le> length (entries c)")
    case True
    then have full: "size_c ?c1 \<le> length (entries ?c1)" by simp
    have pos1: "0 < size_c ?c1" using pos by simp
    from put_evict_ok [OF inv1 full pos1, of now k v] obtain c' where c':
      "put_evict now k v ?c1 = Inr c'" "inv_bounds c'" "size_c c' = size_c ?c1"
      "validity c' = validity ?c1" "length (entries c') = length (entries ?c1)"
      "index c' k = Some (last_c ?c1)" "last_c ?c1 < length (entries ?c1)"
      "val (entries c' ! last_c ?c1) = v" "updated (entries c' ! last_c ?c1) = now"
      by blast
    have p: "put now k v c = Inr c'" using None True c'(1) by (simp add: put_def Let_def)
    show ?thesis
      by (rule exI[of _ c'], rule exI[of _ "last_c c"]) (use c' in \<open>simp add: p\<close>)
  next
    case False
    then have room: "length (entries ?c1) < size_c ?c1" by simp
    from put_append_ok [OF inv1 room, of now k v] obtain c' where c':
      "put_append now k v ?c1 = Inr c'" "inv_bounds c'" "size_c c' = size_c ?c1"
      "validity c' = validity ?c1" "length (entries c') = Suc (length (entries ?c1))"
      "index c' k = Some (length (entries ?c1))"
      "val (entries c' ! length (entries ?c1)) = v"
      "updated (entries c' ! length (entries ?c1)) = now"
      by blast
    have p: "put now k v c = Inr c'" using None False c'(1) by (simp add: put_def Let_def)
    show ?thesis
      by (rule exI[of _ c'], rule exI[of _ "length (entries c)"]) (use c' in \<open>simp add: p\<close>)
  qed
qed

lemma stale_cache_reached:
  "NewFifoCache \<lparr>Size = 1, Validity = 5\<rparr> = Inr c0 \<Longrightarrow> Put tick [''a''] [VInt 1] c0 = Inr stale_cache"
  by (auto simp: NewFifoCache_def Put_def put_def put_append_def set_prev_def set_nxt_def
        stale_cache_def tick_def Let_def)

subsection \<open>Reading\<close>

text \<open>
  Claim C8. \<^verbatim>\<open>Get\<close> never changes the cache proper: in every state that keeps the index
  bounds, \<^verbatim>\<open>Get\<close> returns, and the array of entries, the index, both ring pointers, the
  capacity and the validity are afterwards what they were before, whether the read is a hit,
  a plain miss or a stale miss. Only counters change. In particular a stale entry stays in
  its slot.
\<close>

theorem Get_frame:
  assumes "inv_bounds c"
  shows "\<exists>r c'. Get now k c = Inr (r, c') \<and> entries c' = entries c \<and> index c' = index c \<and>
           first c' = first c \<and> last_c c' = last_c c \<and> size_c c' = size_c c \<and>
           validity c' = validity c"
proof (cases "index c k")
  case None
  then show ?thesis by (auto simp: Get_def Let_def)
next
  case (Some i)
  with assms have "i < length (entries c)" by (simp add: inv_bounds_def)
  with Some show ?thesis by (auto simp: Get_def Let_def)
qed

theorem Get_frame_witness:
  "inv_bounds stale_cache \<and>
   (\<exists>c'. Get 10 ''a'' stale_cache = Inr ((VNil, False), c') \<and> entries c' = entries stale_cache \<and>
      index c' = index stale_cache \<and> first c' = first stale_cache \<and>
      last_c c' = last_c stale_cache \<and> staleGets c' = 1)"
proof -
  have ib: "inv_bounds stale_cache"
    by (simp add: inv_bounds_def links_bounded_def stale_cache_def)
  have g: "fst (projr (Get 10 ''a'' stale_cache)) = (VNil, False)"
    "staleGets (snd (projr (Get 10 ''a'' stale_cache))) = 1"
    by (simp_all add: Get_def Let_def stale_cache_def since_def)
  from Get_frame [OF ib, of 10 "''a''"] g ib show ?thesis by auto
qed

subsection \<open>The degenerate capacity\<close>

text \<open>
  Claim C6. With capacity 0, after any run of \<^verbatim>\<open>Put\<close> calls the entries, the index and
  both ring pointers are what they were at the start, each call has only added one to the
  counter \<^verbatim>\<open>entriesAdded\<close>, and every \<^verbatim>\<open>Get\<close> on any key at any time is a miss.
\<close>

theorem size_zero_noop:
  assumes "size_c c = 0"
  shows "\<exists>c'. Puts bs c = Inr c' \<and> entries c' = entries c \<and> index c' = index c \<and>
           first c' = first c \<and> last_c c' = last_c c \<and> size_c c' = 0 \<and>
           entriesAdded c' = entriesAdded c + length bs \<and>
           (\<forall>now k. \<exists>c''. Get now k c' = Inr ((VNil, False), c''))"
  using assms
proof (induction bs arbitrary: c)
  case Nil
  then show ?case by (simp add: Get_def Let_def)
next
  case (Cons b bs)
  obtain tm ks vs where b: "b = (tm, ks, vs)" by (cases b)
  let ?c1 = "c\<lparr>entriesAdded := entriesAdded c + 1\<rparr>"
  have p: "Put tm ks vs c = Inr ?c1" using Cons.prems by (simp add: Put_def Let_def)
  have "size_c ?c1 = 0" using Cons.prems by simp
  from Cons.IH [OF this] obtain c' where c': "Puts bs ?c1 = Inr c'"
    "entries c' = entries ?c1" "index c' = index ?c1" "first c' = first ?c1"
    "last_c c' = last_c ?c1" "size_c c' = 0" "entriesAdded c' = entriesAdded ?c1 + length bs"
    "\<forall>now k. \<exists>c''. Get now k c' = Inr ((VNil, False), c'')"
    by blast
  show ?case
    by (rule exI[of _ c']) (use c' in \<open>simp add: b p\<close>)
qed

theorem size_zero_noop_witness:
  "size_c zero_cache = 0 \<and>
   (\<exists>c'. Puts [(tick, [''a''], [VInt 1]), (tick, [''b'', ''c''], [])] zero_cache = Inr c' \<and>
      entries c' = [] \<and> index c' ''a'' = None \<and> entriesAdded c' = 2 \<and>
      (\<exists>c''. Get 7 ''a'' c' = Inr ((VNil, False), c'')))"
proof -
  have z: "size_c zero_cache = 0" by (simp add: zero_cache_def NewFifoCache_def)
  have e: "entries zero_cache = []" "index zero_cache ''a'' = None" "entriesAdded zero_cache = 0"
    by (simp_all add: zero_cache_def NewFifoCache_def)
  from size_zero_noop [OF z, of "[(tick, [''a''], [VInt 1]), (tick, [''b'', ''c''], [])]"]
  obtain c' where c': "Puts [(tick, [''a''], [VInt 1]), (tick, [''b'', ''c''], [])] zero_cache = Inr c'"
    "entries c' = entries zero_cache" "index c' = index zero_cache"
    "entriesAdded c' = entriesAdded zero_cache + length [(tick, [''a''], [VInt 1]), (tick, [''b'', ''c''], [])]"
    "\<forall>now k. \<exists>c''. Get now k c' = Inr ((VNil, False), c'')"
    by blast
  from c'(5) have g: "\<exists>c''. Get 7 ''a'' c' = Inr ((VNil, False), c'')" by blast
  have "Puts [(tick, [''a''], [VInt 1]), (tick, [''b'', ''c''], [])] zero_cache = Inr c' \<and>
      entries c' = [] \<and> index c' ''a'' = None \<and> entriesAdded c' = 2 \<and>
      (\<exists>c''. Get 7 ''a'' c' = Inr ((VNil, False), c''))"
    using c'(1-4) e g by simp
  with z show ?thesis by blast
qed

lemma put_loop_ok:
  assumes "inv_bounds c" and "0 < size_c c" and "i + length ks \<le> length vs"
  shows "\<exists>c'. put_loop tm i ks vs c = Inr c' \<and> inv_bounds c' \<and> size_c c' = size_c c \<and>
           validity c' = validity c \<and> length (entries c) \<le> length (entries c')"
  using assms
proof (induction ks arbitrary: i c)
  case Nil
  then show ?case by simp
next
  case (Cons k ks)
  from Cons.prems have i: "i < length vs" by simp
  from put_ok [OF Cons.prems(1,2), of "tm i" k "vs ! i"] obtain c1 where c1:
    "put (tm i) k (vs ! i) c = Inr c1" "inv_bounds c1" "size_c c1 = size_c c"
    "validity c1 = validity c" "length (entries c) \<le> length (entries c1)"
    by blast
  have "0 < size_c c1" using Cons.prems(2) c1(3) by simp
  moreover have "Suc i + length ks \<le> length vs" using Cons.prems(3) by simp
  ultimately obtain c' where c':
    "put_loop tm (Suc i) ks vs c1 = Inr c'" "inv_bounds c'" "size_c c' = size_c c1"
    "validity c' = validity c1" "length (entries c1) \<le> length (entries c')"
    using Cons.IH [OF c1(2)] by blast
  have "put_loop tm i (k # ks) vs c = Inr c'" using i c1(1) c'(1) by simp
  moreover have "length (entries c) \<le> length (entries c')" using c1(5) c'(5) by simp
  ultimately show ?case using c'(2,3,4) c1(3,4) by simp
qed

lemma put_loop_short:
  assumes "inv_bounds c" and "0 < size_c c" and "length vs < i + length ks" and "i \<le> length vs"
  shows "put_loop tm i ks vs c = Inl IndexOutOfRange"
  using assms
proof (induction ks arbitrary: i c)
  case Nil
  then show ?case by simp
next
  case (Cons k ks)
  show ?case
  proof (cases "i < length vs")
    case False
    then show ?thesis by simp
  next
    case True
    from put_ok [OF Cons.prems(1,2), of "tm i" k "vs ! i"] obtain c1 where c1:
      "put (tm i) k (vs ! i) c = Inr c1" "inv_bounds c1" "size_c c1 = size_c c"
      by blast
    have "0 < size_c c1" using Cons.prems(2) c1(3) by simp
    moreover have "length vs < Suc i + length ks" using Cons.prems(3) by simp
    moreover have "Suc i \<le> length vs" using True by simp
    ultimately have "put_loop tm (Suc i) ks vs c1 = Inl IndexOutOfRange"
      using Cons.IH [OF c1(2)] by blast
    with True c1(1) show ?thesis by simp
  qed
qed

lemma Put_ok:
  assumes "inv_bounds c" and "length ks \<le> length vs"
  shows "\<exists>c'. Put tm ks vs c = Inr c' \<and> inv_bounds c' \<and> size_c c' = size_c c \<and>
           validity c' = validity c \<and> length (entries c) \<le> length (entries c')"
proof (cases "size_c c = 0")
  case True
  with assms(1) show ?thesis by (simp add: Put_def Let_def)
next
  case False
  let ?c1 = "c\<lparr>entriesAdded := entriesAdded c + 1\<rparr>"
  have "inv_bounds ?c1" "0 < size_c ?c1" "0 + length ks \<le> length vs"
    using assms False by simp_all
  from put_loop_ok [OF this, of tm] False show ?thesis by (simp add: Put_def Let_def)
qed

subsection \<open>Batches\<close>

text \<open>
  Claim C9. In every state that keeps the index bounds, \<^verbatim>\<open>Put\<close> returns whenever there are
  at least as many values as keys: no slice access fails. When there are fewer values than
  keys and the capacity is not 0, the access \<^verbatim>\<open>values[i]\<close> in the loop is out of range and
  \<^verbatim>\<open>Put\<close> panics: the source has no guard for mismatched lengths.
\<close>

theorem Put_panics_iff_values_short:
  assumes "inv_bounds c"
  shows "(length ks \<le> length vs \<longrightarrow> (\<exists>c'. Put tm ks vs c = Inr c')) \<and>
         (length vs < length ks \<and> 0 < size_c c \<longrightarrow> Put tm ks vs c = Inl IndexOutOfRange)"
proof (intro conjI impI)
  assume "length ks \<le> length vs"
  from Put_ok [OF assms this, of tm] show "\<exists>c'. Put tm ks vs c = Inr c'" by blast
next
  assume a: "length vs < length ks \<and> 0 < size_c c"
  let ?c1 = "c\<lparr>entriesAdded := entriesAdded c + 1\<rparr>"
  have "inv_bounds ?c1" "0 < size_c ?c1" "length vs < 0 + length ks" "0 \<le> length vs"
    using assms a by simp_all
  from put_loop_short [OF this, of tm] a show "Put tm ks vs c = Inl IndexOutOfRange"
    by (simp add: Put_def Let_def)
qed

theorem Put_panics_iff_values_short_witness:
  "inv_bounds one_cache \<and> (\<exists>c'. Put tick [''a''] [VInt 1, VInt 2] one_cache = Inr c') \<and>
   0 < size_c one_cache \<and> Put tick [''a'', ''b''] [VInt 1] one_cache = Inl IndexOutOfRange"
proof -
  have ib: "inv_bounds one_cache"
    by (simp add: one_cache_def NewFifoCache_def inv_bounds_def links_bounded_def)
  have sz: "0 < size_c one_cache" by (simp add: one_cache_def NewFifoCache_def)
  from Put_panics_iff_values_short [OF ib, of "[''a'']" "[VInt 1, VInt 2]" tick]
    Put_panics_iff_values_short [OF ib, of "[''a'', ''b'']" "[VInt 1]" tick] ib sz
  show ?thesis by simp
qed

lemma since_lt_iff:
  assumes "0 < d" and "d < 2 ^ 63"
  shows "since now u < d \<longleftrightarrow> now - u < d"
  using assms unfolding since_def by auto

lemma sint_validity_lt: "sint (d :: duration) < 2 ^ 63"
  using sint_lt [of d] by simp

subsection \<open>The staleness gate\<close>

text \<open>
  Claim C5. Let key \<open>k\<close> be present, at slot \<open>i\<close>, whose field \<^verbatim>\<open>updated\<close> is the time of
  the last write of \<open>k\<close>. With validity 0, \<^verbatim>\<open>Get\<close> is a hit at every time. With validity
  \<open>D > 0\<close>, \<^verbatim>\<open>Get\<close> at time \<open>t\<close> is a hit when \<open>t - updated < D\<close>, and otherwise a miss
  that adds one to both \<^verbatim>\<open>totalMisses\<close> and \<^verbatim>\<open>staleGets\<close>, and changes nothing else
  but \<^verbatim>\<open>totalGets\<close>.
\<close>

theorem Get_staleness:
  assumes "inv_bounds c" and "index c k = Some i"
  shows "(validity c = 0 \<longrightarrow>
            Get now k c = Inr ((val (entries c ! i), True), c\<lparr>totalGets := totalGets c + 1\<rparr>)) \<and>
         (0 < sint (validity c) \<longrightarrow>
            (now - updated (entries c ! i) < sint (validity c) \<longrightarrow>
               Get now k c = Inr ((val (entries c ! i), True), c\<lparr>totalGets := totalGets c + 1\<rparr>)) \<and>
            (sint (validity c) \<le> now - updated (entries c ! i) \<longrightarrow>
               Get now k c = Inr ((VNil, False),
                 c\<lparr> totalGets := totalGets c + 1, totalMisses := totalMisses c + 1,
                     staleGets := staleGets c + 1 \<rparr>)))"
proof -
  from assms have i: "i < length (entries c)" by (simp add: inv_bounds_def)
  with assms(1) have sz: "size_c c \<noteq> 0" by (auto simp: inv_bounds_def)
  have zero: "validity c = 0 \<Longrightarrow>
      Get now k c = Inr ((val (entries c ! i), True), c\<lparr>totalGets := totalGets c + 1\<rparr>)"
    using i sz assms(2) by (simp add: Get_def Let_def)
  have pos: "Get now k c =
      (if now - updated (entries c ! i) < sint (validity c)
       then Inr ((val (entries c ! i), True), c\<lparr>totalGets := totalGets c + 1\<rparr>)
       else Inr ((VNil, False),
                 c\<lparr> totalGets := totalGets c + 1, totalMisses := totalMisses c + 1,
                     staleGets := staleGets c + 1 \<rparr>))"
    if d: "0 < sint (validity c)"
  proof -
    from d have nz: "validity c \<noteq> 0" by auto
    note s = since_lt_iff [OF d sint_validity_lt, of now "updated (entries c ! i)"]
    show ?thesis using i sz assms(2) nz by (simp add: Get_def Let_def s)
  qed
  show ?thesis using zero pos by simp
qed

theorem Get_staleness_witness:
  "inv_bounds stale_cache \<and> index stale_cache ''a'' = Some 0 \<and> 0 < sint (validity stale_cache) \<and>
   Get 4 ''a'' stale_cache = Inr ((VInt 1, True), stale_cache\<lparr>totalGets := 1\<rparr>) \<and>
   Get 5 ''a'' stale_cache =
     Inr ((VNil, False), stale_cache\<lparr>totalGets := 1, totalMisses := 1, staleGets := 1\<rparr>)"
proof -
  have ib: "inv_bounds stale_cache"
    by (simp add: inv_bounds_def links_bounded_def stale_cache_def)
  have ix: "index stale_cache ''a'' = Some 0" by (simp add: stale_cache_def)
  have f: "validity stale_cache = 5" "updated (entries stale_cache ! 0) = 0"
    "val (entries stale_cache ! 0) = VInt 1" "totalGets stale_cache = 0"
    "totalMisses stale_cache = 0" "staleGets stale_cache = 0"
    by (simp_all add: stale_cache_def)
  from Get_staleness [OF ib ix, of 4] Get_staleness [OF ib ix, of 5] ib ix
  show ?thesis by (simp add: f)
qed

lemma one_cache_New: "NewFifoCache \<lparr>Size = 1, Validity = 5\<rparr> = Inr one_cache"
  by (simp add: one_cache_def NewFifoCache_def)

lemma one_cache_facts:
  "inv_bounds one_cache" "size_c one_cache = 1" "validity one_cache = 5"
  by (simp_all add: one_cache_def NewFifoCache_def inv_bounds_def links_bounded_def)

subsection \<open>Writing, then reading\<close>

text \<open>
  Claim C4, as stated for all caches, fails at capacity 0: \<^verbatim>\<open>Put\<close> returns before it
  stores anything, and the \<^verbatim>\<open>Get\<close> that follows is a miss although validity 0 means that
  nothing ever expires.
\<close>

theorem put_get_zero_capacity_miss:
  "\<not> isl (Put tick [''a''] [VInt 1] zero_cache) \<and>
   \<not> isl (Get 0 ''a'' (projr (Put tick [''a''] [VInt 1] zero_cache))) \<and>
   fst (projr (Get 0 ''a'' (projr (Put tick [''a''] [VInt 1] zero_cache)))) = (VNil, False) \<and>
   validity zero_cache = 0"
  by (simp add: zero_cache_def NewFifoCache_def Put_def Get_def Let_def)

text \<open>
  Claim C4, amended: in every state that keeps the index bounds and has a capacity above 0,
  \<^verbatim>\<open>Put\<close> of one key \<open>k\<close> with value \<open>v\<close> returns, and a \<^verbatim>\<open>Get\<close> of \<open>k\<close> that follows
  within the validity window (validity 0, or less than the validity since the write) returns
  \<open>(v, true)\<close>.
\<close>

theorem put_then_get:
  assumes inv: "inv_bounds c" and pos: "0 < size_c c"
    and win: "validity c = 0 \<or> since now' (tm 0) < sint (validity c)"
  shows "\<exists>c' c''. Put tm [k] [v] c = Inr c' \<and> Get now' k c' = Inr ((v, True), c'')"
proof -
  let ?c1 = "c\<lparr>entriesAdded := entriesAdded c + 1\<rparr>"
  have inv1: "inv_bounds ?c1" and pos1: "0 < size_c ?c1" using inv pos by simp_all
  from put_ok [OF inv1 pos1, of "tm 0" k v] obtain c' i where c':
    "put (tm 0) k v ?c1 = Inr c'" "size_c c' = size_c ?c1" "validity c' = validity ?c1"
    "index c' k = Some i" "i < length (entries c')" "val (entries c' ! i) = v"
    "updated (entries c' ! i) = tm 0"
    by blast
  have p: "Put tm [k] [v] c = Inr c'" using pos c'(1) by (simp add: Put_def Let_def)
  have sz: "size_c c' \<noteq> 0" using pos c'(2) by simp
  have w: "validity c' = 0 \<or> since now' (tm 0) < sint (validity c')" using win c'(3) by simp
  have g: "Get now' k c' = Inr ((v, True), c'\<lparr>totalGets := totalGets c' + 1\<rparr>)"
    using sz w c'(4-7) by (auto simp: Get_def Let_def)
  from p g show ?thesis by blast
qed

theorem put_then_get_witness:
  "inv_bounds one_cache \<and> 0 < size_c one_cache \<and> since 3 (tick 0) < sint (validity one_cache) \<and>
   (\<exists>c' c''. Put tick [''a''] [VBytes [1, 2]] one_cache = Inr c' \<and>
      Get 3 ''a'' c' = Inr ((VBytes [1, 2], True), c''))"
proof -
  have w: "since 3 (tick 0) < sint (validity one_cache)"
    by (simp add: one_cache_facts since_def tick_def)
  have pos: "0 < size_c one_cache" by (simp add: one_cache_facts)
  have win: "validity one_cache = 0 \<or> since 3 (tick 0) < sint (validity one_cache)"
    using w by simp
  from put_then_get [where c = one_cache and now' = 3 and tm = tick and k = "''a''"
      and v = "VBytes [1, 2]", OF one_cache_facts(1) pos win]
    one_cache_facts(1) pos w
  show ?thesis by blast
qed

lemma Puts_ok:
  assumes "inv_bounds c" and "\<forall>b\<in>set bs. length (fst (snd b)) \<le> length (snd (snd b))"
  shows "\<exists>c'. Puts bs c = Inr c' \<and> inv_bounds c' \<and> size_c c' = size_c c \<and>
           length (entries c) \<le> length (entries c')"
  using assms
proof (induction bs arbitrary: c)
  case Nil
  then show ?case by simp
next
  case (Cons b bs)
  obtain tm ks vs where b: "b = (tm, ks, vs)" by (cases b)
  with Cons.prems(2) have len: "length ks \<le> length vs" by simp
  from Put_ok [OF Cons.prems(1) len, of tm] obtain c1 where c1:
    "Put tm ks vs c = Inr c1" "inv_bounds c1" "size_c c1 = size_c c"
    "length (entries c) \<le> length (entries c1)"
    by blast
  from Cons.prems(2) have "\<forall>b\<in>set bs. length (fst (snd b)) \<le> length (snd (snd b))" by simp
  from Cons.IH [OF c1(2) this] obtain c' where c':
    "Puts bs c1 = Inr c'" "inv_bounds c'" "size_c c' = size_c c1"
    "length (entries c1) \<le> length (entries c')"
    by blast
  have "Puts (b # bs) c = Inr c'" using b c1(1) c'(1) by simp
  moreover have "length (entries c) \<le> length (entries c')" using c1(4) c'(4) by simp
  ultimately show ?case using c'(2,3) c1(3) by simp
qed

lemma put_new_key_when_full:
  assumes inv: "inv_bounds c" and pos: "0 < size_c c" and full: "length (entries c) = size_c c"
    and new: "index c k = None"
  shows "\<exists>c'. put now k v c = Inr c' \<and> index c' k = Some (last_c c) \<and>
           entries c' = (entries c)[last_c c :=
                          (entries c ! last_c c)\<lparr>updated := now, val := v, key := k\<rparr>]"
proof -
  let ?c1 = "c\<lparr>entriesAddedNew := entriesAddedNew c + 1\<rparr>"
  from pos full have "0 < length (entries c)" by simp
  with inv have "last_c c < length (entries c)" by (rule inv_bounds_ptrs(2))
  then have l: "last_c ?c1 < length (entries ?c1)" by simp
  have "put now k v c = put_evict now k v ?c1"
    using new full by (simp add: put_def Let_def)
  then show ?thesis
    unfolding put_evict_eq [OF l] by simp
qed

subsection \<open>The capacity bound\<close>

text \<open>
  Claim C7, as stated for every capacity \<open>C \<ge> 0\<close>, fails at \<open>C = 0\<close> in its last part: the
  array has its full length 0 from the start, and a first-time key is then neither appended
  nor written into the slot \<^verbatim>\<open>last\<close>: \<^verbatim>\<open>Put\<close> returns before it stores anything, and the
  key is absent afterwards.
\<close>

theorem zero_capacity_reuses_no_slot:
  "length (entries zero_cache) = size_c zero_cache \<and> index zero_cache ''a'' = None \<and>
   \<not> isl (Put tick [''a''] [VInt 1] zero_cache) \<and>
   index (projr (Put tick [''a''] [VInt 1] zero_cache)) ''a'' = None \<and>
   entries (projr (Put tick [''a''] [VInt 1] zero_cache)) = []"
  by (simp add: zero_cache_def NewFifoCache_def Put_def Let_def)

text \<open>
  Claim C7, amended: for every cache created with capacity \<open>C \<ge> 0\<close> and every run of
  \<^verbatim>\<open>Put\<close> calls that respect the caller contract, the run returns and the array is then no
  longer than \<open>C\<close>; once its length is \<open>C\<close>, no further \<^verbatim>\<open>Put\<close> changes the length, and,
  when \<open>C > 0\<close>, writing a key that the index does not have overwrites the slot \<^verbatim>\<open>last\<close>
  with the key, the value and the time, and indexes the key there.
\<close>

theorem capacity_bound:
  assumes new: "NewFifoCache cfg = Inr c0"
    and contract: "\<forall>b\<in>set bs. length (fst (snd b)) \<le> length (snd (snd b))"
  shows "\<exists>c. Puts bs c0 = Inr c \<and> size_c c = nat (Size cfg) \<and>
           length (entries c) \<le> size_c c \<and>
           (length (entries c) = size_c c \<longrightarrow>
              (\<forall>tm ks vs. length ks \<le> length vs \<longrightarrow>
                 (\<exists>c'. Put tm ks vs c = Inr c' \<and> length (entries c') = length (entries c))) \<and>
              (0 < size_c c \<longrightarrow>
                 (\<forall>now k v. index c k = None \<longrightarrow>
                    (\<exists>c'. put now k v c = Inr c' \<and> index c' k = Some (last_c c) \<and>
                       entries c' = (entries c)[last_c c :=
                          (entries c ! last_c c)\<lparr>updated := now, val := v, key := k\<rparr>]))))"
proof -
  from new have inv0: "inv_bounds c0" by (rule inv_bounds_New)
  from new have sz0: "size_c c0 = nat (Size cfg)"
    by (auto simp: NewFifoCache_def split: if_splits)
  from Puts_ok [OF inv0 contract] obtain c where c:
    "Puts bs c0 = Inr c" "inv_bounds c" "size_c c = size_c c0"
    by blast
  from c(2) have le: "length (entries c) \<le> size_c c" by (simp add: inv_bounds_def)
  have stay: "\<exists>c'. Put tm ks vs c = Inr c' \<and> length (entries c') = length (entries c)"
    if full: "length (entries c) = size_c c" and len: "length ks \<le> length vs" for tm ks vs
  proof -
    from Put_ok [OF c(2) len, of tm] obtain c' where c':
      "Put tm ks vs c = Inr c'" "inv_bounds c'" "size_c c' = size_c c"
      "length (entries c) \<le> length (entries c')"
      by blast
    from c'(2) have "length (entries c') \<le> size_c c'" by (simp add: inv_bounds_def)
    with c'(3,4) full have "length (entries c') = length (entries c)" by simp
    with c'(1) show ?thesis by blast
  qed
  have reuse: "\<exists>c'. put now k v c = Inr c' \<and> index c' k = Some (last_c c) \<and>
           entries c' = (entries c)[last_c c :=
                          (entries c ! last_c c)\<lparr>updated := now, val := v, key := k\<rparr>]"
    if "length (entries c) = size_c c" and "0 < size_c c" and "index c k = None" for now k v
    using put_new_key_when_full [OF c(2) that(2) that(1) that(3)] .
  show ?thesis
  proof (rule exI[of _ c], intro conjI impI allI)
    show "Puts bs c0 = Inr c" by (fact c(1))
    show "size_c c = nat (Size cfg)" using c(3) sz0 by simp
    show "length (entries c) \<le> size_c c" by (fact le)
  next
    fix tm and ks :: "string list" and vs :: "iface list"
    assume "length (entries c) = size_c c" and "length ks \<le> length vs"
    then show "\<exists>c'. Put tm ks vs c = Inr c' \<and> length (entries c') = length (entries c)"
      by (rule stay)
  next
    fix now k v
    assume "length (entries c) = size_c c" and "0 < size_c c" and "index c k = None"
    then show "\<exists>c'. put now k v c = Inr c' \<and> index c' k = Some (last_c c) \<and>
           entries c' = (entries c)[last_c c :=
                          (entries c ! last_c c)\<lparr>updated := now, val := v, key := k\<rparr>]"
      by (rule reuse)
  qed
qed

theorem capacity_bound_witness:
  "NewFifoCache \<lparr>Size = 1, Validity = 5\<rparr> = Inr one_cache \<and>
   (\<exists>c. Puts [(tick, [''a''], [VInt 1])] one_cache = Inr c \<and> size_c c = 1 \<and>
      length (entries c) = size_c c \<and> index c ''b'' = None \<and>
      (\<exists>c'. Put tick [''b''] [VInt 2] c = Inr c' \<and> length (entries c') = length (entries c)) \<and>
      (\<exists>c'. put 9 ''b'' (VInt 2) c = Inr c' \<and> index c' ''b'' = Some (last_c c) \<and>
         entries c' = (entries c)[last_c c :=
            (entries c ! last_c c)\<lparr>updated := 9, val := VInt 2, key := ''b''\<rparr>]))"
proof -
  have contract: "\<forall>b\<in>set [(tick, [''a''], [VInt 1 :: iface])].
      length (fst (snd b)) \<le> length (snd (snd b))"
    by simp
  from capacity_bound [OF one_cache_New contract] obtain c where cc:
    "Puts [(tick, [''a''], [VInt 1])] one_cache = Inr c \<and>
     size_c c = nat (Size \<lparr>Size = 1, Validity = 5\<rparr>) \<and>
     length (entries c) \<le> size_c c \<and>
     (length (entries c) = size_c c \<longrightarrow>
       (\<forall>tm ks vs. length ks \<le> length vs \<longrightarrow>
          (\<exists>c'. Put tm ks vs c = Inr c' \<and> length (entries c') = length (entries c))) \<and>
       (0 < size_c c \<longrightarrow>
          (\<forall>now k v. index c k = None \<longrightarrow>
             (\<exists>c'. put now k v c = Inr c' \<and> index c' k = Some (last_c c) \<and>
                entries c' = (entries c)[last_c c :=
                   (entries c ! last_c c)\<lparr>updated := now, val := v, key := k\<rparr>]))))"
    ..
  note c = conjunct1 [OF cc] conjunct1 [OF conjunct2 [OF cc]]
    conjunct2 [OF conjunct2 [OF conjunct2 [OF cc]]]
  from c(1) stale_cache_reached [OF one_cache_New] have eq: "c = stale_cache" by simp
  have full: "length (entries c) = size_c c" and nb: "index c ''b'' = None" and sz: "size_c c = 1"
    by (simp_all add: eq stale_cache_def)
  from c(3) full have
    a: "\<forall>tm ks vs. length ks \<le> length vs \<longrightarrow>
          (\<exists>c'. Put tm ks vs c = Inr c' \<and> length (entries c') = length (entries c))" and
    b: "\<forall>now k v. index c k = None \<longrightarrow>
             (\<exists>c'. put now k v c = Inr c' \<and> index c' k = Some (last_c c) \<and>
                entries c' = (entries c)[last_c c :=
                   (entries c ! last_c c)\<lparr>updated := now, val := v, key := k\<rparr>])"
    using sz by simp_all
  have a': "\<exists>c'. Put tick [''b''] [VInt 2] c = Inr c' \<and> length (entries c') = length (entries c)"
    using a [rule_format, of "[''b'']" "[VInt 2]" tick] by simp
  have b': "\<exists>c'. put 9 ''b'' (VInt 2) c = Inr c' \<and> index c' ''b'' = Some (last_c c) \<and>
         entries c' = (entries c)[last_c c :=
            (entries c ! last_c c)\<lparr>updated := 9, val := VInt 2, key := ''b''\<rparr>]"
    using b [rule_format, of "''b''" 9 "VInt 2"] nb by simp
  show ?thesis
    using one_cache_New c(1) sz full nb a' b' by blast
qed

lemma same_store_refl [simp]: "same_store c c"
  by (simp add: same_store_def)

lemma same_store_inv_bounds: "same_store c c' \<Longrightarrow> inv_bounds c \<Longrightarrow> inv_bounds c'"
  by (simp add: same_store_def inv_bounds_def)

lemma same_store_trans: "same_store c c' \<Longrightarrow> same_store c' c'' \<Longrightarrow> same_store c c''"
  by (simp add: same_store_def)

lemma Get_total:
  assumes "inv_bounds c"
  shows "\<exists>c'. Get now k c = Inr ((got c now k, hit c now k), c') \<and> same_store c c'"
proof (cases "index c k")
  case None
  then show ?thesis by (auto simp: Get_def Let_def got_def hit_def same_store_def)
next
  case (Some i)
  with assms have "i < length (entries c)" by (simp add: inv_bounds_def)
  with Some show ?thesis by (auto simp: Get_def Let_def got_def hit_def same_store_def)
qed

lemma same_store_Get:
  assumes "same_store c c'"
  shows "hit c' now k = hit c now k" and "got c' now k = got c now k"
  using assms
  by (auto simp: hit_def got_def Get_def Let_def same_store_def split: option.splits)


lemma fetch_loop_ok:
  assumes "inv_bounds c'" and "same_store c c'"
    and "\<forall>r\<in>set (reads tm i ks). hit c (snd r) (fst r) \<longrightarrow> is_bytes (got c (snd r) (fst r))"
  shows "\<exists>c''. fetch_loop tm i ks (F, B, M) c' =
           Inr ((F @ map fst (filter (\<lambda>r. hit c (snd r) (fst r)) (reads tm i ks)),
                 B @ map (\<lambda>r. the_bytes (got c (snd r) (fst r)))
                       (filter (\<lambda>r. hit c (snd r) (fst r)) (reads tm i ks)),
                 M @ map fst (filter (\<lambda>r. \<not> hit c (snd r) (fst r)) (reads tm i ks))), c'') \<and>
           same_store c c''"
  using assms
proof (induction ks arbitrary: i F B M c')
  case Nil
  then show ?case by simp
next
  case (Cons k ks)
  from Get_total [OF Cons.prems(1), of "tm i" k] obtain c1 where c1:
    "Get (tm i) k c' = Inr ((got c' (tm i) k, hit c' (tm i) k), c1)" "same_store c' c1"
    by blast
  note hg = same_store_Get [OF Cons.prems(2), of "tm i" k]
  have g: "Get (tm i) k c' = Inr ((got c (tm i) k, hit c (tm i) k), c1)"
    using c1(1) hg by simp
  have ss: "same_store c c1" using Cons.prems(2) c1(2) by (rule same_store_trans)
  have ib: "inv_bounds c1" using c1(2) Cons.prems(1) by (rule same_store_inv_bounds)
  have rest: "\<forall>r\<in>set (reads tm (Suc i) ks).
      hit c (snd r) (fst r) \<longrightarrow> is_bytes (got c (snd r) (fst r))"
    using Cons.prems(3) by simp
  note IH = Cons.IH [OF ib ss rest]
  show ?case
  proof (cases "hit c (tm i) k")
    case False
    from IH [of F B "M @ [k]"] False g show ?thesis by simp
  next
    case True
    with Cons.prems(3) have "is_bytes (got c (tm i) k)" by simp
    then obtain b where b: "got c (tm i) k = VBytes b" by (cases "got c (tm i) k") simp_all
    from IH [of "F @ [k]" "B @ [b]" M] True g b show ?thesis by simp
  qed
qed

lemma bytes_cache_facts:
  "inv_bounds bytes_cache" "hit bytes_cache (tick 0) ''a''"
  "got bytes_cache (tick 0) ''a'' = VBytes [1, 2]" "\<not> hit bytes_cache (tick 1) ''b''"
  by (simp_all add: bytes_cache_def one_cache_def NewFifoCache_def Put_def put_def
        put_append_def set_prev_def set_nxt_def Let_def tick_def inv_bounds_def
        links_bounded_def hit_def got_def Get_def since_def)

lemma str_cache_facts:
  "inv_bounds str_cache" "Fetch tick [''a''] str_cache = Inl TypeAssertionFailed"
  by (simp_all add: str_cache_def one_cache_def NewFifoCache_def Put_def put_def
        put_append_def set_prev_def set_nxt_def Let_def tick_def inv_bounds_def
        links_bounded_def Fetch_def Get_def since_def)


subsection \<open>Batches of reads\<close>

text \<open>
  Claim C10. \<^verbatim>\<open>Fetch\<close> asserts without a check that every hit value is a byte slice. In
  every state that keeps the index bounds, if every key that is a hit at the time of its round
  holds a byte slice, \<^verbatim>\<open>Fetch\<close> returns, and it splits the keys, in input order, into the
  hits with their stored byte slices and the misses; the cache proper is unchanged. In the
  state reached from a fresh cache of capacity 1 by storing a string under a key, \<^verbatim>\<open>Fetch\<close>
  of that key panics on the type assertion.
\<close>

theorem Fetch_partition:
  "(inv_bounds c \<longrightarrow>
    (\<forall>r\<in>set (reads tm 0 ks). hit c (snd r) (fst r) \<longrightarrow> is_bytes (got c (snd r) (fst r))) \<longrightarrow>
    (\<exists>c'. Fetch tm ks c =
        Inr ((map fst (filter (\<lambda>r. hit c (snd r) (fst r)) (reads tm 0 ks)),
              map (\<lambda>r. the_bytes (got c (snd r) (fst r)))
                (filter (\<lambda>r. hit c (snd r) (fst r)) (reads tm 0 ks)),
              map fst (filter (\<lambda>r. \<not> hit c (snd r) (fst r)) (reads tm 0 ks))), c') \<and>
        same_store c c')) \<and>
   (\<not> isl (Put tick [''a''] [VString ''x''] one_cache) \<and> inv_bounds str_cache \<and>
    Fetch tick [''a''] str_cache = Inl TypeAssertionFailed)"
proof (intro conjI impI)
  assume inv: "inv_bounds c"
    and bytes: "\<forall>r\<in>set (reads tm 0 ks). hit c (snd r) (fst r) \<longrightarrow> is_bytes (got c (snd r) (fst r))"
  from fetch_loop_ok [OF inv same_store_refl bytes, of "[]" "[]" "[]"]
  show "\<exists>c'. Fetch tm ks c =
        Inr ((map fst (filter (\<lambda>r. hit c (snd r) (fst r)) (reads tm 0 ks)),
              map (\<lambda>r. the_bytes (got c (snd r) (fst r)))
                (filter (\<lambda>r. hit c (snd r) (fst r)) (reads tm 0 ks)),
              map fst (filter (\<lambda>r. \<not> hit c (snd r) (fst r)) (reads tm 0 ks))), c') \<and>
        same_store c c'"
    by (simp add: Fetch_def)
next
  show "\<not> isl (Put tick [''a''] [VString ''x''] one_cache)"
    by (simp add: one_cache_def NewFifoCache_def Put_def put_def put_append_def Let_def
          set_prev_def set_nxt_def)
  show "inv_bounds str_cache" by (fact str_cache_facts(1))
  show "Fetch tick [''a''] str_cache = Inl TypeAssertionFailed" by (fact str_cache_facts(2))
qed

theorem Fetch_partition_witness:
  "inv_bounds bytes_cache \<and> hit bytes_cache (tick 0) ''a'' \<and>
   is_bytes (got bytes_cache (tick 0) ''a'') \<and> \<not> hit bytes_cache (tick 1) ''b'' \<and>
   (\<exists>c'. Fetch tick [''a'', ''b''] bytes_cache = Inr (([''a''], [[1, 2]], [''b'']), c'))"
proof -
  note f = bytes_cache_facts
  have bytes: "\<forall>r\<in>set (reads tick 0 [''a'', ''b'']).
      hit bytes_cache (snd r) (fst r) \<longrightarrow> is_bytes (got bytes_cache (snd r) (fst r))"
    using f(2-4) by (simp add: tick_def)
  from Fetch_partition [of bytes_cache tick "[''a'', ''b'']"] f(1) bytes
  have "\<exists>c'. Fetch tick [''a'', ''b''] bytes_cache =
        Inr ((map fst (filter (\<lambda>r. hit bytes_cache (snd r) (fst r)) (reads tick 0 [''a'', ''b''])),
              map (\<lambda>r. the_bytes (got bytes_cache (snd r) (fst r)))
                (filter (\<lambda>r. hit bytes_cache (snd r) (fst r)) (reads tick 0 [''a'', ''b''])),
              map fst (filter (\<lambda>r. \<not> hit bytes_cache (snd r) (fst r))
                (reads tick 0 [''a'', ''b'']))), c')"
    by blast
  moreover have "reads tick 0 [''a'', ''b''] = [(''a'', tick 0), (''b'', tick 1)]" by simp
  ultimately have "\<exists>c'. Fetch tick [''a'', ''b''] bytes_cache = Inr (([''a''], [[1, 2]], [''b'']), c')"
    using f(2-4) by simp
  with f show ?thesis by simp
qed

lemmas eval_defs = NewFifoCache_def Put_def put_def put_append_def put_evict_def put_update_def
  set_prev_def set_nxt_def Let_def tick_def

lemma ab_cache_eval:
  "entries ab_cache = [\<lparr>updated = 0, key = ''a'', val = VInt 1, prev = 1, nxt = 1\<rparr>,
                       \<lparr>updated = 1, key = ''b'', val = VInt 2, prev = 0, nxt = 0\<rparr>]"
  "first ab_cache = 1" "last_c ab_cache = 0" "index ab_cache ''b'' = Some 1"
  "index ab_cache ''a'' = Some 0" "size_c ab_cache = 2"
  by (simp_all add: ab_cache_def two_cache_def eval_defs)

lemma abb_cache_eval:
  "\<not> isl (put 2 ''b'' (VInt 3) ab_cache)"
  "entries abb_cache = [\<lparr>updated = 0, key = ''a'', val = VInt 1, prev = 0, nxt = 1\<rparr>,
                        \<lparr>updated = 2, key = ''b'', val = VInt 3, prev = 0, nxt = 1\<rparr>]"
  "first abb_cache = 1" "last_c abb_cache = 0"
  by (simp_all add: abb_cache_def put_def put_update_def set_prev_def set_nxt_def Let_def
        ab_cache_eval)

subsection \<open>The ring after a write to the head\<close>

text \<open>
  Claim C1 says that every write keeps the slots in one ring, also a write to the key at
  the head. The code breaks it there. With capacity 2, after \<open>a\<close> and \<open>b\<close> have been written,
  the two slots form a ring and \<open>b\<close> is at the head. Writing \<open>b\<close> again unlinks slot 1 and
  then links it in front of \<^verbatim>\<open>c.first\<close>, which is still slot 1 itself: afterwards slot 1 is
  its own successor and slot 0 its own predecessor, and the slots no longer form a ring.
\<close>

theorem head_update_breaks_ring:
  "\<not> isl (Put tick [''a'', ''b''] [VInt 1, VInt 2] two_cache) \<and> ring_ok ab_cache \<and>
   index ab_cache ''b'' = Some (first ab_cache) \<and>
   \<not> isl (put 2 ''b'' (VInt 3) ab_cache) \<and>
   nxt (entries abb_cache ! 1) = 1 \<and> prev (entries abb_cache ! 0) = 0 \<and>
   \<not> ring_ok abb_cache"
proof -
  have 1: "\<not> isl (Put tick [''a'', ''b''] [VInt 1, VInt 2] two_cache)"
    by (simp add: two_cache_def eval_defs)
  have 2: "ring_ok ab_cache"
    by (auto simp: ring_ok_def ab_cache_eval Let_def)
  have 3: "index ab_cache ''b'' = Some (first ab_cache)" by (simp add: ab_cache_eval)
  have 4: "nxt (entries abb_cache ! 1) = 1" "prev (entries abb_cache ! 0) = 0"
    by (simp_all add: abb_cache_eval)
  have 5: "\<not> ring_ok abb_cache"
    by (simp add: ring_ok_def abb_cache_eval Let_def)
  from 1 2 3 abb_cache_eval(1) 4 5 show ?thesis by simp
qed

lemma abc_cache_eval:
  "\<not> isl (Put tick [''a'', ''b'', ''c''] [VInt 1, VInt 2, VInt 3] three_cache)"
  "entries abc_cache = [\<lparr>updated = 0, key = ''a'', val = VInt 1, prev = 1, nxt = 2\<rparr>,
                        \<lparr>updated = 1, key = ''b'', val = VInt 2, prev = 2, nxt = 0\<rparr>,
                        \<lparr>updated = 2, key = ''c'', val = VInt 3, prev = 0, nxt = 1\<rparr>]"
  "first abc_cache = 2" "last_c abc_cache = 0" "size_c abc_cache = 3" "validity abc_cache = 0"
  "index abc_cache ''a'' = Some 0" "index abc_cache ''b'' = Some 1"
  "index abc_cache ''c'' = Some 2" "index abc_cache ''d'' = None" "index abc_cache ''e'' = None"
  by (simp_all add: abc_cache_def three_cache_def eval_defs)

lemma abcc_cache_eval:
  "\<not> isl (put 3 ''c'' (VInt 4) abc_cache)"
  "entries abcc_cache = [\<lparr>updated = 0, key = ''a'', val = VInt 1, prev = 1, nxt = 2\<rparr>,
                         \<lparr>updated = 1, key = ''b'', val = VInt 2, prev = 0, nxt = 0\<rparr>,
                         \<lparr>updated = 3, key = ''c'', val = VInt 4, prev = 0, nxt = 2\<rparr>]"
  "first abcc_cache = 2" "last_c abcc_cache = 0" "size_c abcc_cache = 3" "validity abcc_cache = 0"
  "index abcc_cache ''a'' = Some 0" "index abcc_cache ''b'' = Some 1"
  "index abcc_cache ''c'' = Some 2" "index abcc_cache ''d'' = None" "index abcc_cache ''e'' = None"
  by (simp_all add: abcc_cache_def put_def put_update_def set_prev_def set_nxt_def Let_def
        abc_cache_eval)

lemma refreshed_cache_eval:
  "\<not> isl (put 4 ''a'' (VInt 5) abcc_cache)"
  "entries refreshed_cache = [\<lparr>updated = 4, key = ''a'', val = VInt 5, prev = 1, nxt = 2\<rparr>,
                              \<lparr>updated = 1, key = ''b'', val = VInt 2, prev = 0, nxt = 0\<rparr>,
                              \<lparr>updated = 3, key = ''c'', val = VInt 4, prev = 0, nxt = 2\<rparr>]"
  "first refreshed_cache = 0" "last_c refreshed_cache = 1" "size_c refreshed_cache = 3"
  "validity refreshed_cache = 0"
  "index refreshed_cache ''a'' = Some 0" "index refreshed_cache ''b'' = Some 1"
  "index refreshed_cache ''c'' = Some 2" "index refreshed_cache ''d'' = None"
  "index refreshed_cache ''e'' = None"
  by (simp_all add: refreshed_cache_def put_def put_update_def set_prev_def set_nxt_def Let_def
        abcc_cache_eval)

lemma after_d_cache_eval:
  "\<not> isl (put 5 ''d'' (VInt 6) refreshed_cache)"
  "entries after_d_cache = [\<lparr>updated = 4, key = ''a'', val = VInt 5, prev = 1, nxt = 2\<rparr>,
                            \<lparr>updated = 5, key = ''d'', val = VInt 6, prev = 0, nxt = 0\<rparr>,
                            \<lparr>updated = 3, key = ''c'', val = VInt 4, prev = 0, nxt = 2\<rparr>]"
  "first after_d_cache = 1" "last_c after_d_cache = 0" "size_c after_d_cache = 3"
  "validity after_d_cache = 0"
  "index after_d_cache ''a'' = Some 0" "index after_d_cache ''b'' = None"
  "index after_d_cache ''c'' = Some 2" "index after_d_cache ''d'' = Some 1"
  "index after_d_cache ''e'' = None"
  by (simp_all add: after_d_cache_def put_def put_evict_def Let_def refreshed_cache_eval)

lemma after_e_cache_eval:
  "\<not> isl (put 6 ''e'' (VInt 7) after_d_cache)"
  "entries after_e_cache = [\<lparr>updated = 6, key = ''e'', val = VInt 7, prev = 1, nxt = 2\<rparr>,
                            \<lparr>updated = 5, key = ''d'', val = VInt 6, prev = 0, nxt = 0\<rparr>,
                            \<lparr>updated = 3, key = ''c'', val = VInt 4, prev = 0, nxt = 2\<rparr>]"
  "first after_e_cache = 0" "last_c after_e_cache = 1" "size_c after_e_cache = 3"
  "validity after_e_cache = 0"
  "index after_e_cache ''a'' = None" "index after_e_cache ''b'' = None"
  "index after_e_cache ''c'' = Some 2" "index after_e_cache ''d'' = Some 1"
  "index after_e_cache ''e'' = Some 0"
  by (simp_all add: after_e_cache_def put_def put_evict_def Let_def after_d_cache_eval)

subsection \<open>The order of eviction after a refresh\<close>

text \<open>
  Claim C2 says that a key written again is evicted only after every key written before
  that refresh. The code breaks it. With capacity 3, write \<open>a\<close>, \<open>b\<close>, \<open>c\<close> and then \<open>c\<close>
  again (at time 3), which is at the head. In the state reached, \<open>a\<close> is present and the
  array is not longer than the capacity. Now refresh \<open>a\<close> (at time 4): the count of entries
  stays 3. Then write the new keys \<open>d\<close> and \<open>e\<close>: \<open>d\<close> evicts \<open>b\<close>, and \<open>e\<close> evicts \<open>a\<close>,
  the key refreshed last, while \<open>c\<close>, written before that refresh, is still present and
  is read with its value.
\<close>

theorem refreshed_key_evicted_early:
  "length (entries abcc_cache) \<le> size_c abcc_cache \<and> index abcc_cache ''a'' = Some 0 \<and>
   \<not> isl (put 4 ''a'' (VInt 5) abcc_cache) \<and>
   length (entries refreshed_cache) = length (entries abcc_cache) \<and>
   key (entries refreshed_cache ! 2) = ''c'' \<and> updated (entries refreshed_cache ! 2) = 3 \<and>
   index refreshed_cache ''d'' = None \<and> \<not> isl (put 5 ''d'' (VInt 6) refreshed_cache) \<and>
   index after_d_cache ''e'' = None \<and> \<not> isl (put 6 ''e'' (VInt 7) after_d_cache) \<and>
   index after_e_cache ''a'' = None \<and> index after_e_cache ''c'' = Some 2 \<and>
   fst (projr (Get 7 ''a'' after_e_cache)) = (VNil, False) \<and>
   fst (projr (Get 7 ''c'' after_e_cache)) = (VInt 4, True)"
proof -
  have g: "fst (projr (Get 7 ''a'' after_e_cache)) = (VNil, False)"
    "fst (projr (Get 7 ''c'' after_e_cache)) = (VInt 4, True)"
    by (simp_all add: Get_def Let_def after_e_cache_eval)
  show ?thesis
    by (simp add: g abcc_cache_eval refreshed_cache_eval after_d_cache_eval after_e_cache_eval)
qed

lemma put_append_fields:
  assumes inv: "inv_bounds c" and room: "length (entries c) < size_c c"
  shows "\<exists>c'. put_append now k v c = Inr c' \<and> inv_bounds c' \<and>
           entries c' = set_nxt (set_prev (entries c @
               [\<lparr> updated = now, key = k, val = v, prev = last_c c, nxt = first c \<rparr>])
               (first c) (length (entries c))) (last_c c) (length (entries c)) \<and>
           index c' = (index c)(k \<mapsto> length (entries c)) \<and> last_c c' = last_c c \<and>
           size_c c' = size_c c \<and> validity c' = validity c"
proof -
  from put_append_ok [OF inv room, of now k v] obtain c' where c':
    "put_append now k v c = Inr c'" "inv_bounds c'" by blast
  from inv have f: "first c \<le> length (entries c)" and l: "last_c c \<le> length (entries c)"
    unfolding inv_bounds_def by arith+
  have "put_append now k v c =
      Inr (c\<lparr> entries := set_nxt (set_prev (entries c @
               [\<lparr> updated = now, key = k, val = v, prev = last_c c, nxt = first c \<rparr>])
               (first c) (length (entries c))) (last_c c) (length (entries c)),
             first := length (entries c), index := (index c)(k \<mapsto> length (entries c)),
             memoryBytes := memoryBytes c + (sizeOf (VString k) + sizeOf v),
             entriesCurrent := entriesCurrent c + 1 \<rparr>)"
    unfolding put_append_def Let_def using f l by simp
  with c'(1) have "c' = c\<lparr> entries := set_nxt (set_prev (entries c @
               [\<lparr> updated = now, key = k, val = v, prev = last_c c, nxt = first c \<rparr>])
               (first c) (length (entries c))) (last_c c) (length (entries c)),
             first := length (entries c), index := (index c)(k \<mapsto> length (entries c)),
             memoryBytes := memoryBytes c + (sizeOf (VString k) + sizeOf v),
             entriesCurrent := entriesCurrent c + 1 \<rparr>"
    by simp
  then have "entries c' = set_nxt (set_prev (entries c @
               [\<lparr> updated = now, key = k, val = v, prev = last_c c, nxt = first c \<rparr>])
               (first c) (length (entries c))) (last_c c) (length (entries c))"
    "index c' = (index c)(k \<mapsto> length (entries c))" "last_c c' = last_c c"
    "size_c c' = size_c c" "validity c' = validity c"
    by simp_all
  with c' show ?thesis by blast
qed

lemma links_payload:
  assumes "j < length es"
  shows "key (set_nxt (set_prev es a b) a' b' ! j) = key (es ! j)"
    and "val (set_nxt (set_prev es a b) a' b' ! j) = val (es ! j)"
    and "updated (set_nxt (set_prev es a b) a' b' ! j) = updated (es ! j)"
proof -
  from assms have j: "j < length (set_prev es a b)" by simp
  show "key (set_nxt (set_prev es a b) a' b' ! j) = key (es ! j)"
    by (simp only: set_nxt_payload [OF j] set_prev_payload [OF assms])
  show "val (set_nxt (set_prev es a b) a' b' ! j) = val (es ! j)"
    by (simp only: set_nxt_payload [OF j] set_prev_payload [OF assms])
  show "updated (set_nxt (set_prev es a b) a' b' ! j) = updated (es ! j)"
    by (simp only: set_nxt_payload [OF j] set_prev_payload [OF assms])
qed

lemma fill_step:
  assumes fl: "filled n tm ks vs c" and room: "n < size_c c" and n: "n < length ks"
    and dist: "distinct ks"
  shows "\<exists>c'. put (tm n) (ks ! n) (vs ! n) c = Inr c' \<and> filled (Suc n) tm ks vs c' \<and>
           size_c c' = size_c c \<and> validity c' = validity c"
proof -
  let ?c1 = "c\<lparr>entriesAddedNew := entriesAddedNew c + 1\<rparr>"
  let ?e = "\<lparr> updated = tm n, key = ks ! n, val = vs ! n, prev = last_c ?c1, nxt = first ?c1 \<rparr>"
  from fl have len: "length (entries c) = n" and inv: "inv_bounds c" and l0: "last_c c = 0"
    and slots: "\<And>j. j < n \<Longrightarrow> key (entries c ! j) = ks ! j \<and> val (entries c ! j) = vs ! j \<and>
              updated (entries c ! j) = tm j \<and> index c (ks ! j) = Some j"
    and absent: "\<And>k. k \<notin> set (take n ks) \<Longrightarrow> index c k = None"
    by (simp_all add: filled_def)
  have notin: "ks ! n \<notin> set (take n ks)"
  proof
    assume "ks ! n \<in> set (take n ks)"
    then obtain j where j: "j < length (take n ks)" "take n ks ! j = ks ! n"
      by (auto simp: in_set_conv_nth)
    then have "j < n" "ks ! j = ks ! n" by simp_all
    with dist n show False by (simp add: nth_eq_iff_index_eq)
  qed
  then have new: "index c (ks ! n) = None" by (rule absent)
  have inv1: "inv_bounds ?c1" using inv by simp
  have room1: "length (entries ?c1) < size_c ?c1" using room len by simp
  from put_append_fields [OF inv1 room1, of "tm n" "ks ! n" "vs ! n"] obtain c' where c':
    "put_append (tm n) (ks ! n) (vs ! n) ?c1 = Inr c'" "inv_bounds c'"
    "entries c' = set_nxt (set_prev (entries ?c1 @ [?e]) (first ?c1) (length (entries ?c1)))
        (last_c ?c1) (length (entries ?c1))"
    "index c' = (index ?c1)(ks ! n \<mapsto> length (entries ?c1))" "last_c c' = last_c ?c1"
    "size_c c' = size_c ?c1" "validity c' = validity ?c1"
    by blast
  have p: "put (tm n) (ks ! n) (vs ! n) c = Inr c'"
    using new room len c'(1) by (simp add: put_def Let_def)
  have len': "length (entries c') = Suc n" by (simp add: c'(3) len)
  have pay: "key (entries c' ! j) = key ((entries c @ [?e]) ! j)"
    "val (entries c' ! j) = val ((entries c @ [?e]) ! j)"
    "updated (entries c' ! j) = updated ((entries c @ [?e]) ! j)" if "j < Suc n" for j
  proof -
    from that len have j: "j < length (entries ?c1 @ [?e])" by simp
    show "key (entries c' ! j) = key ((entries c @ [?e]) ! j)"
      unfolding c'(3) using links_payload(1) [OF j] by simp
    show "val (entries c' ! j) = val ((entries c @ [?e]) ! j)"
      unfolding c'(3) using links_payload(2) [OF j] by simp
    show "updated (entries c' ! j) = updated ((entries c @ [?e]) ! j)"
      unfolding c'(3) using links_payload(3) [OF j] by simp
  qed
  have slots': "key (entries c' ! j) = ks ! j \<and> val (entries c' ! j) = vs ! j \<and>
              updated (entries c' ! j) = tm j \<and> index c' (ks ! j) = Some j" if "j < Suc n" for j
  proof (cases "j < n")
    case True
    with dist n have ne: "ks ! j \<noteq> ks ! n" by (simp add: nth_eq_iff_index_eq)
    from True slots [OF True] pay [OF that] ne show ?thesis
      by (simp add: nth_append len c'(4))
  next
    case False
    with that have "j = n" by simp
    with pay [OF that] show ?thesis by (simp add: nth_append len c'(4))
  qed
  have absent': "index c' k = None" if "k \<notin> set (take (Suc n) ks)" for k
  proof -
    from that n have "k \<noteq> ks ! n" "k \<notin> set (take n ks)"
      by (simp_all add: take_Suc_conv_app_nth)
    then show ?thesis using absent by (simp add: c'(4))
  qed
  have "filled (Suc n) tm ks vs c'"
    unfolding filled_def using len' c'(2,5) l0 slots' absent' by simp
  with p c'(6,7) show ?thesis by simp
qed

lemma put_loop_fill:
  assumes "filled i tm ks vs c" and "distinct ks" and "length ks \<le> size_c c"
    and "length ks \<le> length vs" and "i \<le> length ks"
  shows "\<exists>c'. put_loop tm i (drop i ks) vs c = Inr c' \<and> filled (length ks) tm ks vs c' \<and>
           size_c c' = size_c c \<and> validity c' = validity c"
  using assms
proof (induction "length ks - i" arbitrary: i c)
  case 0
  then have "i = length ks" by simp
  with "0.prems"(1) show ?case by simp
next
  case (Suc m)
  then have i: "i < length ks" by simp
  then have iv: "i < length vs" and room: "i < size_c c" using Suc.prems(3,4) by simp_all
  from fill_step [OF Suc.prems(1) room i Suc.prems(2)] obtain c1 where c1:
    "put (tm i) (ks ! i) (vs ! i) c = Inr c1" "filled (Suc i) tm ks vs c1"
    "size_c c1 = size_c c" "validity c1 = validity c"
    by blast
  have m: "m = length ks - Suc i" using Suc.hyps(2) by simp
  have sz: "length ks \<le> size_c c1" using Suc.prems(3) c1(3) by simp
  have si: "Suc i \<le> length ks" using i by simp
  from Suc.hyps(1) [OF m c1(2) Suc.prems(2) sz Suc.prems(4) si] obtain c' where c':
    "put_loop tm (Suc i) (drop (Suc i) ks) vs c1 = Inr c'" "filled (length ks) tm ks vs c'"
    "size_c c' = size_c c1" "validity c' = validity c1"
    by blast
  have d: "drop i ks = ks ! i # drop (Suc i) ks" using i by (rule Cons_nth_drop_Suc [symmetric])
  have "put_loop tm i (drop i ks) vs c = Inr c'"
    unfolding d using iv c1(1) c'(1) by simp
  with c'(2,3,4) c1(3,4) show ?case by simp
qed

lemma put_loop_append:
  "put_loop tm i (xs @ ys) vs c =
     (case put_loop tm i xs vs c of Inl e \<Rightarrow> Inl e
      | Inr c' \<Rightarrow> put_loop tm (i + length xs) ys vs c')"
  by (induction xs arbitrary: i c) (simp_all split: sum.splits)

lemma filled_take:
  assumes "filled n tm (take m ks) vs c" and "n \<le> m"
  shows "filled n tm ks vs c"
  using assms unfolding filled_def by (auto simp: min_def)

lemma put_evict_fields:
  assumes inv: "inv_bounds c" and pos: "0 < size_c c" and full: "length (entries c) = size_c c"
    and new: "index c k = None"
  shows "\<exists>c'. put now k v c = Inr c' \<and> size_c c' = size_c c \<and> validity c' = validity c \<and>
           index c' = ((index c)(key (entries c ! last_c c) := None))(k \<mapsto> last_c c) \<and>
           entries c' = (entries c)[last_c c :=
                          (entries c ! last_c c)\<lparr>updated := now, val := v, key := k\<rparr>]"
proof -
  let ?c1 = "c\<lparr>entriesAddedNew := entriesAddedNew c + 1\<rparr>"
  from pos full have "0 < length (entries c)" by simp
  with inv have "last_c c < length (entries c)" by (rule inv_bounds_ptrs(2))
  then have l: "last_c ?c1 < length (entries ?c1)" by simp
  have "put now k v c = put_evict now k v ?c1"
    using new full by (simp add: put_def Let_def)
  then show ?thesis
    unfolding put_evict_eq [OF l] by simp
qed


subsection \<open>First in, first out\<close>

text \<open>
  Claim C3. Let the capacity \<open>C\<close> be above 0, and let \<open>C + 1\<close> pairwise distinct keys be
  written in order into a fresh cache, the \<open>j\<close>-th with the \<open>j\<close>-th value at time \<open>tm j\<close>.
  The writes return. If validity is 0, or the read time is within the validity of every
  write, then reading the first key is a miss, and reading any of the other keys is a hit
  that returns the value written.
\<close>

theorem fifo_evicts_oldest:
  assumes pos: "0 < C" and lk: "length ks = Suc C" and lv: "length vs = Suc C"
    and dist: "distinct ks"
    and new: "NewFifoCache \<lparr>Size = int C, Validity = V\<rparr> = Inr c0"
    and win: "V = 0 \<or> (\<forall>j\<le>C. since now (tm j) < sint V)"
  shows "\<exists>c. Put tm ks vs c0 = Inr c \<and>
           (\<exists>c'. Get now (ks ! 0) c = Inr ((VNil, False), c')) \<and>
           (\<forall>j. 1 \<le> j \<and> j \<le> C \<longrightarrow> (\<exists>c'. Get now (ks ! j) c = Inr ((vs ! j, True), c')))"
proof -
  let ?xs = "take C ks"
  let ?c1 = "c0\<lparr>entriesAdded := entriesAdded c0 + 1\<rparr>"
  have ks: "ks = ?xs @ [ks ! C]"
    using lk take_Suc_conv_app_nth [of C ks] by simp
  from new have c0: "size_c c0 = C" "validity c0 = V" "entries c0 = []"
    "index c0 = Map.empty" "last_c c0 = 0"
    by (auto simp: NewFifoCache_def)
  from new have inv0: "inv_bounds c0" by (rule inv_bounds_New)
  have f0: "filled 0 tm ?xs vs ?c1" using inv0 by (simp add: filled_def c0)
  have lx: "length ?xs = C" using lk by simp
  have dx: "distinct ?xs" using dist by simp
  have sx: "length ?xs \<le> size_c ?c1" using lx c0(1) by simp
  have vx: "length ?xs \<le> length vs" using lx lv by simp
  from put_loop_fill [OF f0 dx sx vx] obtain c2 where c2:
    "put_loop tm 0 (drop 0 ?xs) vs ?c1 = Inr c2" "filled (length ?xs) tm ?xs vs c2"
    "size_c c2 = size_c ?c1" "validity c2 = validity ?c1"
    by blast
  from c2(2) have "filled C tm ?xs vs c2" by (simp only: lx)
  then have fl: "filled C tm ks vs c2" by (rule filled_take) simp
  from fl have len2: "length (entries c2) = C" and l2: "last_c c2 = 0" and inv2: "inv_bounds c2"
    and slots: "\<And>j. j < C \<Longrightarrow> key (entries c2 ! j) = ks ! j \<and> val (entries c2 ! j) = vs ! j \<and>
              updated (entries c2 ! j) = tm j \<and> index c2 (ks ! j) = Some j"
    and absent: "\<And>k. k \<notin> set (take C ks) \<Longrightarrow> index c2 k = None"
    by (simp_all add: filled_def)
  have sz2: "size_c c2 = C" and va2: "validity c2 = V" using c2(3,4) c0 by simp_all
  have ne: "ks ! j \<noteq> ks ! C" if "j < C" for j
    using that dist lk by (simp add: nth_eq_iff_index_eq)
  have notin: "ks ! C \<notin> set (take C ks)"
  proof
    assume "ks ! C \<in> set (take C ks)"
    then obtain j where "j < length (take C ks)" "take C ks ! j = ks ! C"
      by (auto simp: in_set_conv_nth)
    then have "j < C" "ks ! j = ks ! C" using lk by simp_all
    with ne show False by simp
  qed
  then have new2: "index c2 (ks ! C) = None" by (rule absent)
  have pos2: "0 < size_c c2" using pos sz2 by simp
  have full2: "length (entries c2) = size_c c2" using len2 sz2 by simp
  from put_evict_fields [OF inv2 pos2 full2 new2, of "tm C" "vs ! C"] obtain c3 where c3:
    "put (tm C) (ks ! C) (vs ! C) c2 = Inr c3" "size_c c3 = size_c c2"
    "validity c3 = validity c2"
    "index c3 = ((index c2)(key (entries c2 ! last_c c2) := None))(ks ! C \<mapsto> last_c c2)"
    "entries c3 = (entries c2)[last_c c2 :=
        (entries c2 ! last_c c2)\<lparr>updated := tm C, val := vs ! C, key := ks ! C\<rparr>]"
    by blast
  have k0: "key (entries c2 ! 0) = ks ! 0" using slots [OF pos] by simp
  have ix3: "index c3 = ((index c2)(ks ! 0 := None))(ks ! C \<mapsto> 0)"
    using c3(4) l2 k0 by simp
  have es3: "entries c3 = (entries c2)[0 :=
        (entries c2 ! 0)\<lparr>updated := tm C, val := vs ! C, key := ks ! C\<rparr>]"
    using c3(5) l2 by simp
  have sz3: "size_c c3 \<noteq> 0" and va3: "validity c3 = V" using c3(2,3) sz2 va2 pos by simp_all
  have len3: "length (entries c3) = C" using es3 len2 by simp
  have loop: "put_loop tm 0 ks vs ?c1 = Inr c3"
  proof -
    have "put_loop tm 0 (?xs @ [ks ! C]) vs ?c1 = Inr c3"
      unfolding put_loop_append using c2(1) c3(1) lx lv by simp
    with ks show ?thesis by simp
  qed
  have P: "Put tm ks vs c0 = Inr c3"
    using loop c0(1) pos by (simp add: Put_def Let_def)
  have G0: "\<exists>c'. Get now (ks ! 0) c3 = Inr ((VNil, False), c')"
  proof -
    have "index c3 (ks ! 0) = None" using ne [OF pos] by (simp add: ix3)
    then show ?thesis using sz3 by (simp add: Get_def Let_def)
  qed
  have Gj: "\<exists>c'. Get now (ks ! j) c3 = Inr ((vs ! j, True), c')" if j: "1 \<le> j" "j \<le> C" for j
  proof -
    from win j have w: "V = 0 \<or> since now (tm j) < sint V" by auto
    show ?thesis
    proof (cases "j = C")
      case True
      have "index c3 (ks ! C) = Some 0" by (simp add: ix3)
      moreover have "val (entries c3 ! 0) = vs ! C" "updated (entries c3 ! 0) = tm C"
        using pos len2 by (simp_all add: es3)
      ultimately show ?thesis
        using True sz3 va3 w len3 pos by (auto simp: Get_def Let_def)
    next
      case False
      with j have jC: "j < C" by simp
      from j have j0: "j \<noteq> 0" by simp
      have "ks ! j \<noteq> ks ! 0" using dist lk jC j0 by (simp add: nth_eq_iff_index_eq)
      with ne [OF jC] slots [OF jC] have "index c3 (ks ! j) = Some j" by (simp add: ix3)
      moreover have "val (entries c3 ! j) = vs ! j" "updated (entries c3 ! j) = tm j"
        using slots [OF jC] j0 by (simp_all add: es3)
      ultimately show ?thesis
        using jC sz3 va3 w len3 by (auto simp: Get_def Let_def)
    qed
  qed
  from P G0 Gj show ?thesis by blast
qed

theorem fifo_evicts_oldest_witness:
  "(0::nat) < 2 \<and> distinct [''a'', ''b'', ''c''] \<and>
   NewFifoCache \<lparr>Size = 2, Validity = 0\<rparr> = Inr two_cache \<and>
   (\<exists>c. Put tick [''a'', ''b'', ''c''] [VInt 1, VInt 2, VInt 3] two_cache = Inr c \<and>
      (\<exists>c'. Get 9 ''a'' c = Inr ((VNil, False), c')) \<and>
      (\<exists>c'. Get 9 ''b'' c = Inr ((VInt 2, True), c')) \<and>
      (\<exists>c'. Get 9 ''c'' c = Inr ((VInt 3, True), c')))"
proof -
  have new: "NewFifoCache \<lparr>Size = int 2, Validity = 0\<rparr> = Inr two_cache"
    by (simp add: two_cache_def NewFifoCache_def)
  have win: "(0 :: duration) = 0 \<or> (\<forall>j\<le>2. since 9 (tick j) < sint (0 :: duration))" by simp
  have d: "distinct [''a'', ''b'', ''c'']" by simp
  from fifo_evicts_oldest [where C = 2 and ks = "[''a'', ''b'', ''c'']"
      and vs = "[VInt 1, VInt 2, VInt 3]" and V = 0 and ?c0.0 = two_cache and now = 9
      and tm = tick, OF _ _ _ d new win]
  obtain c where c: "Put tick [''a'', ''b'', ''c''] [VInt 1, VInt 2, VInt 3] two_cache = Inr c"
    "\<exists>c'. Get 9 ([''a'', ''b'', ''c''] ! 0) c = Inr ((VNil, False), c')"
    "\<forall>j. 1 \<le> j \<and> j \<le> 2 \<longrightarrow>
       (\<exists>c'. Get 9 ([''a'', ''b'', ''c''] ! j) c = Inr (([VInt 1, VInt 2, VInt 3] ! j, True), c'))"
    by auto
  from c(3) [rule_format, of 1] c(3) [rule_format, of 2]
  have "\<exists>c'. Get 9 ''b'' c = Inr ((VInt 2, True), c')" "\<exists>c'. Get 9 ''c'' c = Inr ((VInt 3, True), c')"
    by simp_all
  with c(1,2) new d show ?thesis by auto
qed

lemma Put_inv_bounds:
  assumes inv: "inv_bounds c" and p: "Put tm ks vs c = Inr c'"
  shows "inv_bounds c'"
proof (cases "length ks \<le> length vs")
  case True
  from Put_ok [OF inv True, of tm] p show ?thesis by auto
next
  case False
  show ?thesis
  proof (cases "size_c c = 0")
    case True
    with p inv show ?thesis by (auto simp: Put_def Let_def)
  next
    case nz: False
    let ?c1 = "c\<lparr>entriesAdded := entriesAdded c + 1\<rparr>"
    have "inv_bounds ?c1" "0 < size_c ?c1" "length vs < 0 + length ks" "0 \<le> length vs"
      using inv nz False by simp_all
    from put_loop_short [OF this, of tm] nz have "Put tm ks vs c = Inl IndexOutOfRange"
      by (simp add: Put_def Let_def)
    with p show ?thesis by simp
  qed
qed

lemma reachable_inv_bounds: "reachable c \<Longrightarrow> inv_bounds c"
proof (induction rule: reachable.induct)
  case (reach_new cfg c)
  then show ?case by (rule inv_bounds_New)
next
  case (reach_put c tm ks vs c')
  then show ?case using Put_inv_bounds by blast
next
  case (reach_get c now k r c')
  from Get_total [OF reach_get.IH, of now k] reach_get.hyps(2)
  have "same_store c c'" by auto
  then show ?case using reach_get.IH by (rule same_store_inv_bounds)
qed

end
